theory Spec2Isabelle
  imports Main "HOL-Library.Sublist"
begin

section \<open>The drawer provider (drawer-context.tsx)\<close>

text \<open>
  The React component \<^verbatim>\<open>DrawerProvider\<close> holds four \<^verbatim>\<open>useState\<close> cells, one
  \<^verbatim>\<open>useRef\<close> cell and three kinds of pending \<^verbatim>\<open>setTimeout\<close> timers. The model
  is explicit state passing: every handler takes the current time (the value of
  \<^verbatim>\<open>Date.now()\<close>, milliseconds, an \<open>int\<close> so that a clock set back makes the
  difference negative as in the source) and the \<^verbatim>\<open>chatStatus\<close> prop, and returns the
  state after the batched updates. A pending timer is the time from which it may fire.
\<close>

datatype chat_status = Ready | Streaming | Submitted | Error

record drawer_state =
  isOpen :: bool
  isWaitingForEmail :: bool
  isAutomaticOpen :: bool
  registrationSuccess :: bool
  lastCloseTimeRef :: int
  autoCloseTimeout :: "int option"
  successResetTimeout :: "int option"
  forceCloseTimeouts :: "int list"

text \<open>The values of \<^verbatim>\<open>useState(false)\<close> and \<^verbatim>\<open>useRef(0)\<close>; no timer is pending.\<close>

definition initialDrawer :: drawer_state where
  "initialDrawer =
     \<lparr>isOpen = False, isWaitingForEmail = False, isAutomaticOpen = False,
      registrationSuccess = False, lastCloseTimeRef = 0,
      autoCloseTimeout = None, successResetTimeout = None, forceCloseTimeouts = []\<rparr>"

text \<open>
  \<^verbatim>\<open>const isAIWriting = chatStatus === "streaming" || chatStatus === "submitted"\<close>;
  the prop is optional, \<open>None\<close> is \<^verbatim>\<open>undefined\<close>.
\<close>

definition isAIWriting :: "chat_status option \<Rightarrow> bool" where
  "isAIWriting chatStatus = (chatStatus = Some Streaming \<or> chatStatus = Some Submitted)"

definition openDrawer :: "int \<Rightarrow> chat_status option \<Rightarrow> bool \<Rightarrow> drawer_state \<Rightarrow> drawer_state" where
  "openDrawer now chatStatus isAutomatic s =
     (let timeSinceClose = now - lastCloseTimeRef s in
      if timeSinceClose < 2000 then s
      else if \<not> isAIWriting chatStatus
        then s\<lparr>isOpen := True, isAutomaticOpen := isAutomatic\<rparr>
        else s)"

definition closeDrawer :: "int \<Rightarrow> drawer_state \<Rightarrow> drawer_state" where
  "closeDrawer now s =
     s\<lparr>lastCloseTimeRef := now,
       isOpen := False,
       isAutomaticOpen := False,
       isWaitingForEmail := False,
       forceCloseTimeouts := forceCloseTimeouts s @ [now + 50]\<rparr>"

definition toggleDrawer :: "int \<Rightarrow> chat_status option \<Rightarrow> drawer_state \<Rightarrow> drawer_state" where
  "toggleDrawer now chatStatus s =
     (if \<not> isAIWriting chatStatus then
        (if \<not> isOpen s then openDrawer now chatStatus False s else closeDrawer now s)
      else if isOpen s then closeDrawer now s
      else s)"

definition setIsWaitingForEmail :: "bool \<Rightarrow> drawer_state \<Rightarrow> drawer_state" where
  "setIsWaitingForEmail v s = s\<lparr>isWaitingForEmail := v\<rparr>"

definition setRegistrationSuccess :: "bool \<Rightarrow> drawer_state \<Rightarrow> drawer_state" where
  "setRegistrationSuccess v s = s\<lparr>registrationSuccess := v\<rparr>"

subsection \<open>Timer callbacks\<close>

text \<open>
  A timer armed for a time \<open>d\<close> may run its callback at any time \<open>now\<close> with
  \<open>d \<le> now\<close> and runs it once. The callback of the auto-close effect is
  \<^verbatim>\<open>setIsOpen(false); setIsAutomaticOpen(false)\<close>; it is not \<^verbatim>\<open>closeDrawer\<close>.
\<close>

definition autoCloseFires :: "int \<Rightarrow> drawer_state \<Rightarrow> drawer_state" where
  "autoCloseFires now s =
     (case autoCloseTimeout s of
        None \<Rightarrow> s
      | Some d \<Rightarrow>
          if d \<le> now
          then s\<lparr>isOpen := False, isAutomaticOpen := False, autoCloseTimeout := None\<rparr>
          else s)"

definition successResetFires :: "int \<Rightarrow> drawer_state \<Rightarrow> drawer_state" where
  "successResetFires now s =
     (case successResetTimeout s of
        None \<Rightarrow> s
      | Some d \<Rightarrow>
          if d \<le> now
          then s\<lparr>registrationSuccess := False, successResetTimeout := None\<rparr>
          else s)"

text \<open>
  The 50 ms timers of \<^verbatim>\<open>closeDrawer\<close> are never cleared; each runs
  \<^verbatim>\<open>setIsOpen(false)\<close>.
\<close>

definition forceCloseFires :: "int \<Rightarrow> drawer_state \<Rightarrow> drawer_state" where
  "forceCloseFires now s =
     (if filter (\<lambda>d. d \<le> now) (forceCloseTimeouts s) = [] then s
      else s\<lparr>isOpen := False,
             forceCloseTimeouts := filter (\<lambda>d. now < d) (forceCloseTimeouts s)\<rparr>)"

subsection \<open>Effects\<close>

text \<open>
  After the updates of an event are applied the component renders again, and an effect
  whose dependency list changed since the previous render runs its cleanup and then its
  body. \<open>prev\<close> is the state of the previous render.

  First effect, dependencies \<^verbatim>\<open>[isOpen, isAutomaticOpen]\<close>: the cleanup clears the
  pending timer, the body arms one for 8000 ms when \<^verbatim>\<open>isOpen && isAutomaticOpen\<close>.
\<close>

definition autoCloseEffect :: "int \<Rightarrow> drawer_state \<Rightarrow> drawer_state \<Rightarrow> drawer_state" where
  "autoCloseEffect now prev s =
     (if isOpen prev = isOpen s \<and> isAutomaticOpen prev = isAutomaticOpen s then s
      else s\<lparr>autoCloseTimeout :=
               (if isOpen s \<and> isAutomaticOpen s then Some (now + 8000) else None)\<rparr>)"

text \<open>
  Second effect, dependencies \<^verbatim>\<open>[isOpen, registrationSuccess]\<close>: the body arms a
  timer for 500 ms when \<^verbatim>\<open>!isOpen && registrationSuccess\<close>, with a cleanup that
  clears it.
\<close>

definition successResetEffect :: "int \<Rightarrow> drawer_state \<Rightarrow> drawer_state \<Rightarrow> drawer_state" where
  "successResetEffect now prev s =
     (if isOpen prev = isOpen s \<and> registrationSuccess prev = registrationSuccess s then s
      else s\<lparr>successResetTimeout :=
               (if \<not> isOpen s \<and> registrationSuccess s then Some (now + 500) else None)\<rparr>)"

definition render :: "int \<Rightarrow> drawer_state \<Rightarrow> drawer_state \<Rightarrow> drawer_state" where
  "render now prev s = successResetEffect now prev (autoCloseEffect now prev s)"

subsection \<open>Events of the provider\<close>

datatype drawer_event =
    OpenDrawer bool
  | CloseDrawer
  | ToggleDrawer
  | SetIsWaitingForEmail bool
  | SetRegistrationSuccess bool
  | AutoCloseFires
  | SuccessResetFires
  | ForceCloseFires

fun drawerHandler :: "int \<Rightarrow> chat_status option \<Rightarrow> drawer_event \<Rightarrow> drawer_state \<Rightarrow> drawer_state" where
  "drawerHandler now cs (OpenDrawer isAutomatic) s = openDrawer now cs isAutomatic s"
| "drawerHandler now cs CloseDrawer s = closeDrawer now s"
| "drawerHandler now cs ToggleDrawer s = toggleDrawer now cs s"
| "drawerHandler now cs (SetIsWaitingForEmail v) s = setIsWaitingForEmail v s"
| "drawerHandler now cs (SetRegistrationSuccess v) s = setRegistrationSuccess v s"
| "drawerHandler now cs AutoCloseFires s = autoCloseFires now s"
| "drawerHandler now cs SuccessResetFires s = successResetFires now s"
| "drawerHandler now cs ForceCloseFires s = forceCloseFires now s"

definition drawerStep :: "int \<Rightarrow> chat_status option \<Rightarrow> drawer_event \<Rightarrow> drawer_state \<Rightarrow> drawer_state" where
  "drawerStep now cs ev s = render now s (drawerHandler now cs ev s)"

text \<open>A trace gives each event its time and the \<^verbatim>\<open>chatStatus\<close> prop at that time.\<close>

fun runDrawer :: "(int \<times> chat_status option \<times> drawer_event) list \<Rightarrow> drawer_state \<Rightarrow> drawer_state" where
  "runDrawer [] s = s"
| "runDrawer ((now, cs, ev) # evs) s = runDrawer evs (drawerStep now cs ev s)"

text \<open>The operations of the store that the sub-mode setters are not part of.\<close>

fun isOperation :: "drawer_event \<Rightarrow> bool" where
  "isOperation (SetIsWaitingForEmail v) = False"
| "isOperation (SetRegistrationSuccess v) = False"
| "isOperation ev = True"

text \<open>
  The spec's \<open>origin\<close> field is the pair \<^verbatim>\<open>isOpen\<close>, \<^verbatim>\<open>isAutomaticOpen\<close> of the
  source: an open drawer is automatic or manual, a closed one has no origin.
\<close>

datatype origin = Manual | Automatic | NoOrigin

definition origin :: "drawer_state \<Rightarrow> origin" where
  "origin s = (if isOpen s then (if isAutomaticOpen s then Automatic else Manual) else NoOrigin)"

definition requested :: "bool \<Rightarrow> origin" where
  "requested isAutomatic = (if isAutomatic then Automatic else Manual)"

text \<open>
  In every reachable state an auto-close timer is pending exactly when the drawer is
  open with the automatic flag.
\<close>

definition autoCloseArmed :: "drawer_state \<Rightarrow> bool" where
  "autoCloseArmed s = ((autoCloseTimeout s \<noteq> None) = (isOpen s \<and> isAutomaticOpen s))"

text \<open>
  Likewise a success-reset timer is pending exactly when the drawer is closed and the
  success flag is set.
\<close>

definition successResetArmed :: "drawer_state \<Rightarrow> bool" where
  "successResetArmed s =
     ((successResetTimeout s \<noteq> None) = (\<not> isOpen s \<and> registrationSuccess s))"

section \<open>Strings\<close>

text \<open>
  A JavaScript string is modelled as a list of the 8-bit characters of HOL, read as the
  code units U+0000 to U+00FF (Latin-1); text with other code units is outside the
  model. \<^verbatim>\<open>toLowerCase\<close> maps the upper-case letters of that range (A to Z, and
  U+00C0 to U+00DE but for the multiplication sign U+00D7) to the letter 32 above.
\<close>

definition lowerChar :: "char \<Rightarrow> char" where
  "lowerChar c =
     (let n = (of_char c :: nat) in
      if (65 \<le> n \<and> n \<le> 90) \<or> (192 \<le> n \<and> n \<le> 222 \<and> n \<noteq> 215)
      then char_of (n + 32) else c)"

definition toLowerCase :: "string \<Rightarrow> string" where
  "toLowerCase s = map lowerChar s"

text \<open>\<^verbatim>\<open>content.includes(keyword)\<close>: the keyword occurs at some position.\<close>

fun includes_str :: "string \<Rightarrow> string \<Rightarrow> bool" where
  "includes_str [] keyword = (keyword = [])"
| "includes_str (c # cs) keyword = (prefix keyword (c # cs) \<or> includes_str cs keyword)"

subsection \<open>The email pattern\<close>

text \<open>
  \<^verbatim>\<open>/^[^\s@]+@[^\s@]+\.[^\s@]+$/.test(input)\<close>. The pattern is anchored at both
  ends, so the test is membership of the whole string in the language of the
  expression, decided here by derivatives.
\<close>

datatype rexp =
    Nothing
  | Empty
  | Sym "char \<Rightarrow> bool"
  | Seq rexp rexp
  | Alt rexp rexp
  | Star rexp

fun nullable :: "rexp \<Rightarrow> bool" where
  "nullable Nothing = False"
| "nullable Empty = True"
| "nullable (Sym p) = False"
| "nullable (Seq r1 r2) = (nullable r1 \<and> nullable r2)"
| "nullable (Alt r1 r2) = (nullable r1 \<or> nullable r2)"
| "nullable (Star r) = True"

fun deriv :: "char \<Rightarrow> rexp \<Rightarrow> rexp" where
  "deriv c Nothing = Nothing"
| "deriv c Empty = Nothing"
| "deriv c (Sym p) = (if p c then Empty else Nothing)"
| "deriv c (Seq r1 r2) =
     (if nullable r1 then Alt (Seq (deriv c r1) r2) (deriv c r2) else Seq (deriv c r1) r2)"
| "deriv c (Alt r1 r2) = Alt (deriv c r1) (deriv c r2)"
| "deriv c (Star r) = Seq (deriv c r) (Star r)"

fun regexTest :: "rexp \<Rightarrow> string \<Rightarrow> bool" where
  "regexTest r [] = nullable r"
| "regexTest r (c # cs) = regexTest (deriv c r) cs"

definition OneOrMore :: "rexp \<Rightarrow> rexp" where
  "OneOrMore r = Seq r (Star r)"

text \<open>The class \<^verbatim>\<open>\s\<close> on the code units of the model: tab, line feed, vertical tab,
  form feed, carriage return, space and the no-break space U+00A0.\<close>

definition isSpace :: "char \<Rightarrow> bool" where
  "isSpace c = ((of_char c :: nat) \<in> {9, 10, 11, 12, 13, 32, 160})"

definition notSpaceNorAt :: "char \<Rightarrow> bool" where
  "notSpaceNorAt c = (\<not> isSpace c \<and> c \<noteq> CHR ''@'')"

definition emailRegex :: rexp where
  "emailRegex =
     Seq (OneOrMore (Sym notSpaceNorAt))
       (Seq (Sym (\<lambda>c. c = CHR ''@''))
         (Seq (OneOrMore (Sym notSpaceNorAt))
           (Seq (Sym (\<lambda>c. c = CHR ''.''))
             (OneOrMore (Sym notSpaceNorAt)))))"

text \<open>
  The language of an expression: what the pattern means, independently of how the
  matcher decides it.
\<close>

definition conc :: "string set \<Rightarrow> string set \<Rightarrow> string set" where
  "conc A B = {xs @ ys | xs ys. xs \<in> A \<and> ys \<in> B}"

inductive_set star :: "string set \<Rightarrow> string set" for A :: "string set" where
  star_empty: "[] \<in> star A"
| star_more: "x \<in> A \<Longrightarrow> xs \<in> star A \<Longrightarrow> x @ xs \<in> star A"

fun lang :: "rexp \<Rightarrow> string set" where
  "lang Nothing = {}"
| "lang Empty = {[]}"
| "lang (Sym p) = {[c] | c. p c}"
| "lang (Seq r1 r2) = conc (lang r1) (lang r2)"
| "lang (Alt r1 r2) = lang r1 \<union> lang r2"
| "lang (Star r) = star (lang r)"

section \<open>The chat input (chat-input.tsx) and the drawer content (custom-drawer.tsx)\<close>

record message =
  role :: string
  content :: string

text \<open>The two refs of \<^verbatim>\<open>ChatInput\<close> and its pending 10 s timers, which are never
  cleared.\<close>

record chat_input_refs =
  cooldownRef :: bool
  lastOpenTimeRef :: int
  cooldownTimeouts :: "int list"

text \<open>
  The state the two components see: the provider's state, the refs, the
  \<^verbatim>\<open>chatStatus\<close> prop of the provider, and \<^verbatim>\<open>status\<close>, \<^verbatim>\<open>messages\<close> and
  \<^verbatim>\<open>input\<close> of the chat hook. The chat transport and the newsletter mutation are
  external: \<open>submits\<close> records each call of \<^verbatim>\<open>handleSubmit\<close> with the text it
  sends, \<open>pendingSaves\<close> the calls of \<^verbatim>\<open>saveEmail\<close> that have not settled,
  \<open>errorLog\<close> counts the calls of \<^verbatim>\<open>console.error\<close>, and \<open>noClickTimeouts\<close> are the
  100 ms timers of \<^verbatim>\<open>handleNoClick\<close>.
\<close>

record world =
  drawer :: drawer_state
  refs :: chat_input_refs
  chatStatus :: "chat_status option"
  status :: chat_status
  messages :: "message list"
  input :: string
  submits :: "string list"
  pendingSaves :: "string list"
  errorLog :: nat
  noClickTimeouts :: "int list"

text \<open>The block that sets the cooldown, written three times in the source.\<close>

definition startCooldown :: "int \<Rightarrow> chat_input_refs \<Rightarrow> chat_input_refs" where
  "startCooldown now r =
     r\<lparr>cooldownRef := True,
       lastOpenTimeRef := now,
       cooldownTimeouts := cooldownTimeouts r @ [now + 10000]\<rparr>"

definition cooldownFires :: "int \<Rightarrow> chat_input_refs \<Rightarrow> chat_input_refs" where
  "cooldownFires now r =
     (if filter (\<lambda>d. d \<le> now) (cooldownTimeouts r) = [] then r
      else r\<lparr>cooldownRef := False,
             cooldownTimeouts := filter (\<lambda>d. now < d) (cooldownTimeouts r)\<rparr>)"

definition isLoading :: "chat_status \<Rightarrow> bool" where
  "isLoading st = (st = Streaming \<or> st = Submitted)"

text \<open>
  \<^verbatim>\<open>handleSubmit\<close> belongs to the chat hook, whose code is not in the source files:
  what it does with the message is left open, and the model records that it was called,
  with the text of the input.
\<close>

definition handleSubmit :: "string \<Rightarrow> world \<Rightarrow> world" where
  "handleSubmit text w = w\<lparr>submits := submits w @ [text]\<rparr>"

definition safeToggleDrawer :: "int \<Rightarrow> world \<Rightarrow> world" where
  "safeToggleDrawer now w =
     (if \<not> isAIWriting (chatStatus w) then
        (let w1 = w\<lparr>drawer := toggleDrawer now (chatStatus w) (drawer w)\<rparr> in
         if \<not> isOpen (drawer w) then w1\<lparr>refs := startCooldown now (refs w1)\<rparr> else w1)
      else w)"

text \<open>
  \<^verbatim>\<open>handleEmailSubmit\<close>, with the outcome of the awaited \<^verbatim>\<open>saveEmail\<close> as the
  argument \<open>saveOk\<close> and the await taken as one step; \<open>now\<close> is the time at which the
  promise settles. \<^verbatim>\<open>handleInputChange\<close>, called with the empty value, is the chat
  hook's setter of \<^verbatim>\<open>input\<close>.
\<close>

definition handleEmailSubmit :: "int \<Rightarrow> bool \<Rightarrow> world \<Rightarrow> world" where
  "handleEmailSubmit now saveOk w =
     (if isWaitingForEmail (drawer w) then
        (if regexTest emailRegex (input w) then
           (if saveOk then
              w\<lparr>drawer :=
                  setIsWaitingForEmail False
                    (closeDrawer now (setRegistrationSuccess True (drawer w))),
                input := [],
                refs := startCooldown now (refs w)\<rparr>
            else handleSubmit (input w) (w\<lparr>errorLog := Suc (errorLog w)\<rparr>))
         else handleSubmit (input w) w)
      else handleSubmit (input w) w)"

text \<open>
  The same handler in two steps, for traces in which other events happen while the
  promise is pending: the part before the \<^verbatim>\<open>await\<close>, which keeps the text the closure
  holds, and the part after it.
\<close>

definition emailSubmitBegins :: "world \<Rightarrow> world" where
  "emailSubmitBegins w =
     (if isWaitingForEmail (drawer w) then
        (if regexTest emailRegex (input w) then w\<lparr>pendingSaves := pendingSaves w @ [input w]\<rparr>
         else handleSubmit (input w) w)
      else handleSubmit (input w) w)"

definition saveEmailSettles :: "int \<Rightarrow> bool \<Rightarrow> world \<Rightarrow> world" where
  "saveEmailSettles now saveOk w =
     (case pendingSaves w of
        [] \<Rightarrow> w
      | text # rest \<Rightarrow>
          if saveOk then
            w\<lparr>drawer :=
                setIsWaitingForEmail False
                  (closeDrawer now (setRegistrationSuccess True (drawer w))),
              input := [],
              refs := startCooldown now (refs w),
              pendingSaves := rest\<rparr>
          else handleSubmit text (w\<lparr>errorLog := Suc (errorLog w), pendingSaves := rest\<rparr>))"

subsection \<open>Intent detection\<close>

definition registrationKeywords :: "string list" where
  "registrationKeywords =
     [''register'', ''signup'', ''sign up'', ''subscribe'', ''account'', ''create account'',
      ''inscrire'', ''m'inscrire'', ''inscription'']"

text \<open>\<^verbatim>\<open>messages[messages.length - 1]\<close>, \<^verbatim>\<open>undefined\<close> on the empty list.\<close>

definition lastMessage :: "message list \<Rightarrow> message option" where
  "lastMessage ms = (if ms = [] then None else Some (last ms))"

definition hasIntent :: "string \<Rightarrow> bool" where
  "hasIntent text = list_ex (\<lambda>keyword. includes_str text keyword) registrationKeywords"

definition checkForRegistrationIntent :: "int \<Rightarrow> world \<Rightarrow> world" where
  "checkForRegistrationIntent now w =
     (if cooldownRef (refs w) \<or> isOpen (drawer w) then w
      else
        (case lastMessage (messages w) of
           None \<Rightarrow> w
         | Some lastMsg \<Rightarrow>
             if role lastMsg = ''user'' then
               (if hasIntent (toLowerCase (content lastMsg))
                   \<and> \<not> isAIWriting (chatStatus w) \<and> \<not> isOpen (drawer w)
                then w\<lparr>drawer := openDrawer now (chatStatus w) True (drawer w)\<rparr>
                else w)
             else w))"

definition intentEffect :: "int \<Rightarrow> world \<Rightarrow> world" where
  "intentEffect now w =
     (if status w = Ready \<or> status w = Error then checkForRegistrationIntent now w else w)"

subsection \<open>The drawer content\<close>

text \<open>\<^verbatim>\<open>const drawerIsVisible = isOpen && !isAIWriting\<close>: the drawer and its close
  button are rendered only then.\<close>

definition drawerIsVisible :: "world \<Rightarrow> bool" where
  "drawerIsVisible w = (isOpen (drawer w) \<and> \<not> isAIWriting (chatStatus w))"

text \<open>
  The drawer shows the thank-you message when \<^verbatim>\<open>registrationSuccess\<close> is set, else
  the instruction to type the email when \<^verbatim>\<open>isWaitingForEmail\<close> is set, else the
  question with its Yes and No buttons.
\<close>

definition questionIsVisible :: "world \<Rightarrow> bool" where
  "questionIsVisible w =
     (drawerIsVisible w \<and> \<not> registrationSuccess (drawer w)
      \<and> \<not> isWaitingForEmail (drawer w))"

text \<open>\<^verbatim>\<open>handleYesClick\<close>, whose callback \<^verbatim>\<open>handleRegistrationConfirm\<close> sets the flag
  a second time.\<close>

definition handleYesClick :: "world \<Rightarrow> world" where
  "handleYesClick w =
     w\<lparr>drawer := setIsWaitingForEmail True (setIsWaitingForEmail True (drawer w))\<rparr>"

definition handleNoClick :: "int \<Rightarrow> world \<Rightarrow> world" where
  "handleNoClick now w =
     w\<lparr>drawer := closeDrawer now (drawer w),
       noClickTimeouts := noClickTimeouts w @ [now + 100]\<rparr>"

definition noClickFires :: "int \<Rightarrow> world \<Rightarrow> world" where
  "noClickFires now w =
     (case filter (\<lambda>d. d \<le> now) (noClickTimeouts w) of
        [] \<Rightarrow> w
      | d # ds \<Rightarrow>
          w\<lparr>drawer := closeDrawer now (drawer w),
            noClickTimeouts := remove1 d (noClickTimeouts w)\<rparr>)"

subsection \<open>Events of the page\<close>

datatype event =
    PlusButton
  | EmergencyClose
  | EscapeKey
  | YesClick
  | NoClick
  | SubmitInput
  | SaveEmailSettles bool
  | ChatChanges chat_status "chat_status option" "message list" string
  | IntentEffectRuns
  | AutoCloseTimer
  | SuccessResetTimer
  | ForceCloseTimer
  | NoClickTimer
  | CooldownTimer

fun worldHandler :: "int \<Rightarrow> event \<Rightarrow> world \<Rightarrow> world" where
  "worldHandler now PlusButton w = safeToggleDrawer now w"
| "worldHandler now EmergencyClose w =
     (if drawerIsVisible w then w\<lparr>drawer := closeDrawer now (drawer w)\<rparr> else w)"
| "worldHandler now EscapeKey w = w\<lparr>drawer := closeDrawer now (drawer w)\<rparr>"
| "worldHandler now YesClick w = (if questionIsVisible w then handleYesClick w else w)"
| "worldHandler now NoClick w = (if questionIsVisible w then handleNoClick now w else w)"
| "worldHandler now SubmitInput w = (if isLoading (status w) then w else emailSubmitBegins w)"
| "worldHandler now (SaveEmailSettles saveOk) w = saveEmailSettles now saveOk w"
| "worldHandler now (ChatChanges st cs ms text) w =
     w\<lparr>status := st, chatStatus := cs, messages := ms, input := text\<rparr>"
| "worldHandler now IntentEffectRuns w = intentEffect now w"
| "worldHandler now AutoCloseTimer w = w\<lparr>drawer := autoCloseFires now (drawer w)\<rparr>"
| "worldHandler now SuccessResetTimer w = w\<lparr>drawer := successResetFires now (drawer w)\<rparr>"
| "worldHandler now ForceCloseTimer w = w\<lparr>drawer := forceCloseFires now (drawer w)\<rparr>"
| "worldHandler now NoClickTimer w = noClickFires now w"
| "worldHandler now CooldownTimer w = w\<lparr>refs := cooldownFires now (refs w)\<rparr>"

text \<open>
  The render after an event: the two effects of the provider, then the cooldown effect
  of \<^verbatim>\<open>ChatInput\<close> (dependency \<^verbatim>\<open>[isOpen]\<close>), which sets the cooldown when
  \<^verbatim>\<open>isOpen\<close> changed and is false. The intent effect, whose dependencies include the
  \<^verbatim>\<open>openDrawer\<close> function that every render of the provider creates anew, is an event
  of its own; it comes after the cooldown effect of the same render, as in the source.
\<close>

definition commit :: "int \<Rightarrow> world \<Rightarrow> world \<Rightarrow> world" where
  "commit now prev w =
     w\<lparr>drawer := render now (drawer prev) (drawer w),
       refs := (if isOpen (drawer prev) \<and> \<not> isOpen (drawer w)
                then startCooldown now (refs w) else refs w)\<rparr>"

definition worldStep :: "int \<Rightarrow> event \<Rightarrow> world \<Rightarrow> world" where
  "worldStep now ev w = commit now w (worldHandler now ev w)"

fun run :: "(int \<times> event) list \<Rightarrow> world \<Rightarrow> world" where
  "run [] w = w"
| "run ((now, ev) # evs) w = run evs (worldStep now ev w)"

text \<open>
  The first render, at time \<open>now\<close>: the provider starts closed, the cooldown effect runs
  with \<^verbatim>\<open>isOpen\<close> false, and the intent effect runs after it.
\<close>

definition mount :: "int \<Rightarrow> chat_status \<Rightarrow> chat_status option \<Rightarrow> message list \<Rightarrow> string \<Rightarrow> world" where
  "mount now st cs ms text =
     intentEffect now
       \<lparr>drawer = initialDrawer,
        refs = startCooldown now
                 \<lparr>cooldownRef = False, lastOpenTimeRef = 0, cooldownTimeouts = []\<rparr>,
        chatStatus = cs, status = st, messages = ms, input = text,
        submits = [], pendingSaves = [], errorLog = 0, noClickTimeouts = []\<rparr>"

subsection \<open>Scenarios\<close>

text \<open>
  The page after the plus button and the Yes button, with \<open>text\<close> typed into the
  input: the drawer is open and waits for an email.
\<close>

definition capturing :: "string \<Rightarrow> world" where
  "capturing text =
     run [(5000, PlusButton), (6000, YesClick), (7000, ChatChanges Ready (Some Ready) [] text)]
       (mount 0 Ready (Some Ready) [] [])"



definition closedRecently :: world where
  "closedRecently =
     run [(5000, PlusButton), (9500, EscapeKey), (10000, CooldownTimer),
          (10100, ChatChanges Ready (Some Ready)
                    [\<lparr>role = ''user'', content = ''I'd like to sign up''\<rparr>] [])]
       (mount 0 Ready (Some Ready) [] [])"

text \<open>
  An email is submitted at 11500 and the drawer is closed by the Escape key at 12000,
  while the save is pending; the save succeeds at 15000.
\<close>

definition closedWhileSaving :: "(int \<times> event) list" where
  "closedWhileSaving =
     [(5000, PlusButton), (6000, YesClick),
      (7000, ChatChanges Ready (Some Ready) [] ''a@b.co''),
      (11500, SubmitInput), (12000, EscapeKey)]"

definition lateSave :: "(int \<times> event) list" where
  "lateSave = closedWhileSaving @ [(15000, SaveEmailSettles True)]"

text \<open>Events of the first ten seconds after a mount at time 0.\<close>

definition eagerUser :: "(int \<times> event) list" where
  "eagerUser =
     [(100, ChatChanges Ready (Some Ready)
              [\<lparr>role = ''user'', content = ''I'd like to sign up''\<rparr>] []),
      (100, IntentEffectRuns),
      (5000, PlusButton),
      (7500, EscapeKey),
      (9000, ChatChanges Error (Some Error)
              [\<lparr>role = ''user'', content = ''subscribe me''\<rparr>] []),
      (9999, CooldownTimer),
      (9999, IntentEffectRuns)]"

subsection \<open>The cooldown of the first ten seconds\<close>

text \<open>
  The cooldown flag is set and no pending cooldown timer can fire before \<open>T0 + 10000\<close>;
  the drawer is not open automatically.
\<close>

definition coolingRefs :: "int \<Rightarrow> chat_input_refs \<Rightarrow> bool" where
  "coolingRefs T0 r =
     (cooldownRef r \<and> list_all (\<lambda>d. T0 + 10000 \<le> d) (cooldownTimeouts r))"

definition coolingSince :: "int \<Rightarrow> world \<Rightarrow> bool" where
  "coolingSince T0 w = (coolingRefs T0 (refs w) \<and> \<not> isAutomaticOpen (drawer w))"

section \<open>Properties of the provider\<close>

lemma render_fields [simp]:
  "isOpen (render now prev s) = isOpen s"
  "isAutomaticOpen (render now prev s) = isAutomaticOpen s"
  "isWaitingForEmail (render now prev s) = isWaitingForEmail s"
  "registrationSuccess (render now prev s) = registrationSuccess s"
  "lastCloseTimeRef (render now prev s) = lastCloseTimeRef s"
  "forceCloseTimeouts (render now prev s) = forceCloseTimeouts s"
  by (simp_all add: render_def successResetEffect_def autoCloseEffect_def)

lemma render_autoCloseTimeout:
  "autoCloseTimeout (render now prev s) =
     (if isOpen prev = isOpen s \<and> isAutomaticOpen prev = isAutomaticOpen s
      then autoCloseTimeout s
      else if isOpen s \<and> isAutomaticOpen s then Some (now + 8000) else None)"
  by (simp add: render_def successResetEffect_def autoCloseEffect_def)

lemma render_successResetTimeout:
  "successResetTimeout (render now prev s) =
     (if isOpen prev = isOpen s \<and> registrationSuccess prev = registrationSuccess s
      then successResetTimeout s
      else if \<not> isOpen s \<and> registrationSuccess s then Some (now + 500) else None)"
  by (auto simp add: render_def successResetEffect_def autoCloseEffect_def)

lemma render_same [simp]: "render now s s = s"
  by (simp add: render_def successResetEffect_def autoCloseEffect_def)

lemma step_autoCloseArmed:
  assumes "autoCloseArmed s"
  shows "autoCloseArmed (drawerStep now cs ev s)"
proof (cases ev)
  case (OpenDrawer a)
  with assms show ?thesis
    by (auto simp add: autoCloseArmed_def drawerStep_def render_autoCloseTimeout openDrawer_def)
next
  case CloseDrawer
  with assms show ?thesis
    by (auto simp add: autoCloseArmed_def drawerStep_def render_autoCloseTimeout closeDrawer_def)
next
  case ToggleDrawer
  with assms show ?thesis
    by (auto simp add: autoCloseArmed_def drawerStep_def render_autoCloseTimeout
        toggleDrawer_def openDrawer_def closeDrawer_def)
next
  case (SetIsWaitingForEmail v)
  with assms show ?thesis
    by (auto simp add: autoCloseArmed_def drawerStep_def render_autoCloseTimeout
        setIsWaitingForEmail_def)
next
  case (SetRegistrationSuccess v)
  with assms show ?thesis
    by (auto simp add: autoCloseArmed_def drawerStep_def render_autoCloseTimeout
        setRegistrationSuccess_def)
next
  case AutoCloseFires
  with assms show ?thesis
    by (cases "autoCloseTimeout s")
       (auto simp add: autoCloseArmed_def drawerStep_def render_autoCloseTimeout
        autoCloseFires_def)
next
  case SuccessResetFires
  with assms show ?thesis
    by (cases "successResetTimeout s")
       (auto simp add: autoCloseArmed_def drawerStep_def render_autoCloseTimeout
        successResetFires_def)
next
  case ForceCloseFires
  with assms show ?thesis
    by (auto simp add: autoCloseArmed_def drawerStep_def render_autoCloseTimeout
        forceCloseFires_def)
qed

lemma step_successResetArmed:
  assumes "successResetArmed s"
  shows "successResetArmed (drawerStep now cs ev s)"
proof (cases ev)
  case (OpenDrawer a)
  with assms show ?thesis
    by (auto simp add: successResetArmed_def drawerStep_def render_successResetTimeout
        openDrawer_def)
next
  case CloseDrawer
  with assms show ?thesis
    by (auto simp add: successResetArmed_def drawerStep_def render_successResetTimeout
        closeDrawer_def)
next
  case ToggleDrawer
  with assms show ?thesis
    by (auto simp add: successResetArmed_def drawerStep_def render_successResetTimeout
        toggleDrawer_def openDrawer_def closeDrawer_def)
next
  case (SetIsWaitingForEmail v)
  with assms show ?thesis
    by (auto simp add: successResetArmed_def drawerStep_def render_successResetTimeout
        setIsWaitingForEmail_def)
next
  case (SetRegistrationSuccess v)
  with assms show ?thesis
    by (auto simp add: successResetArmed_def drawerStep_def render_successResetTimeout
        setRegistrationSuccess_def)
next
  case AutoCloseFires
  with assms show ?thesis
    by (cases "autoCloseTimeout s")
       (auto simp add: successResetArmed_def drawerStep_def render_successResetTimeout
        autoCloseFires_def)
next
  case SuccessResetFires
  with assms show ?thesis
    by (cases "successResetTimeout s")
       (auto simp add: successResetArmed_def drawerStep_def render_successResetTimeout
        successResetFires_def)
next
  case ForceCloseFires
  with assms show ?thesis
    by (auto simp add: successResetArmed_def drawerStep_def render_successResetTimeout
        forceCloseFires_def)
qed

lemma run_autoCloseArmed:
  "autoCloseArmed s \<Longrightarrow> autoCloseArmed (runDrawer evs s)"
proof (induction evs arbitrary: s)
  case Nil
  then show ?case by simp
next
  case (Cons e evs)
  obtain now cs ev where e: "e = (now, cs, ev)" by (cases e) auto
  show ?case unfolding e runDrawer.simps
    by (rule Cons.IH) (rule step_autoCloseArmed [OF Cons.prems])
qed

lemma run_successResetArmed:
  "successResetArmed s \<Longrightarrow> successResetArmed (runDrawer evs s)"
proof (induction evs arbitrary: s)
  case Nil
  then show ?case by simp
next
  case (Cons e evs)
  obtain now cs ev where e: "e = (now, cs, ev)" by (cases e) auto
  show ?case unfolding e runDrawer.simps
    by (rule Cons.IH) (rule step_successResetArmed [OF Cons.prems])
qed

lemma initial_armed: "autoCloseArmed initialDrawer" "successResetArmed initialDrawer"
  by (simp_all add: autoCloseArmed_def successResetArmed_def initialDrawer_def)

text \<open>Both timer invariants hold in every state a trace reaches from the initial one.\<close>

lemma reachable_armed:
  "autoCloseArmed (runDrawer evs initialDrawer)"
  "successResetArmed (runDrawer evs initialDrawer)"
  by (rule run_autoCloseArmed, rule initial_armed, rule run_successResetArmed,
      rule initial_armed)

theorem timers_match_state:
  "autoCloseArmed (runDrawer evs initialDrawer)
   \<and> successResetArmed (runDrawer evs initialDrawer)"
  using reachable_armed [of evs] by simp

lemma open_keeps:
  "lastCloseTimeRef (drawerStep now cs (OpenDrawer a) s) = lastCloseTimeRef s"
  "isWaitingForEmail (drawerStep now cs (OpenDrawer a) s) = isWaitingForEmail s"
  "registrationSuccess (drawerStep now cs (OpenDrawer a) s) = registrationSuccess s"
  "forceCloseTimeouts (drawerStep now cs (OpenDrawer a) s) = forceCloseTimeouts s"
  by (simp_all add: drawerStep_def openDrawer_def)

lemma open_succeeds:
  assumes "\<not> isAIWriting c" and "2000 \<le> t - lastCloseTimeRef x"
  shows "isOpen (drawerStep t c (OpenDrawer a) x)"
    "isAutomaticOpen (drawerStep t c (OpenDrawer a) x) = a"
    "origin (drawerStep t c (OpenDrawer a) x) = requested a"
  using assms by (simp_all add: drawerStep_def openDrawer_def origin_def requested_def)

lemma open_noop:
  assumes "isAIWriting c \<or> t - lastCloseTimeRef x < 2000"
  shows "drawerStep t c (OpenDrawer a) x = x"
  using assms by (auto simp add: drawerStep_def openDrawer_def)

lemma close_records: "lastCloseTimeRef (drawerStep t c CloseDrawer x) = t"
  by (simp add: drawerStep_def closeDrawer_def)

lemma forceCloseFires_idem:
  "forceCloseFires t (forceCloseFires t x) = forceCloseFires t x"
proof -
  have "filter (\<lambda>d. d \<le> t) (filter ((<) t) (forceCloseTimeouts x)) = []"
    by (induction "forceCloseTimeouts x") (auto simp add: filter_empty_conv)
  then show ?thesis by (simp add: forceCloseFires_def)
qed

lemma forceCloseFires_due:
  assumes "d \<in> set (forceCloseTimeouts x)" and "d \<le> t"
  shows "\<not> isOpen (forceCloseFires t x)"
proof -
  from assms have "filter (\<lambda>d. d \<le> t) (forceCloseTimeouts x) \<noteq> []"
    by (auto simp add: filter_empty_conv)
  then show ?thesis by (simp add: forceCloseFires_def)
qed

lemma forceCloseFires_closed:
  assumes closed: "\<not> isOpen x" and mem: "d \<in> set (forceCloseTimeouts x)" and le: "d \<le> t"
  shows "drawerStep t c ForceCloseFires x
           = x\<lparr>forceCloseTimeouts := filter (\<lambda>d. t < d) (forceCloseTimeouts x)\<rparr>"
proof -
  from mem le have due: "filter (\<lambda>d. d \<le> t) (forceCloseTimeouts x) \<noteq> []"
    by (auto simp add: filter_empty_conv)
  have "forceCloseFires t x
      = x\<lparr>isOpen := False,
          forceCloseTimeouts := filter (\<lambda>d. t < d) (forceCloseTimeouts x)\<rparr>"
    using due by (simp add: forceCloseFires_def)
  also have "\<dots> = x\<lparr>forceCloseTimeouts := filter (\<lambda>d. t < d) (forceCloseTimeouts x)\<rparr>"
    using closed by (intro drawer_state.equality) simp_all
  finally have f: "forceCloseFires t x
      = x\<lparr>forceCloseTimeouts := filter (\<lambda>d. t < d) (forceCloseTimeouts x)\<rparr>" .
  show ?thesis
    unfolding drawerStep_def drawerHandler.simps f
    by (simp add: render_def autoCloseEffect_def successResetEffect_def)
qed





lemma close_disarms:
  assumes "autoCloseArmed x"
  shows "autoCloseTimeout (drawerStep t c CloseDrawer x) = None"
proof -
  have "\<not> isOpen (drawerStep t c CloseDrawer x)"
    by (simp add: drawerStep_def closeDrawer_def)
  moreover have "autoCloseArmed (drawerStep t c CloseDrawer x)"
    by (rule step_autoCloseArmed [OF assms])
  ultimately show ?thesis by (auto simp add: autoCloseArmed_def)
qed


lemma successResetFires_none:
  "successResetTimeout x = None \<Longrightarrow> drawerStep t c SuccessResetFires x = x"
  by (simp add: drawerStep_def successResetFires_def)

lemma successResetFires_early:
  "successResetTimeout x = Some d \<Longrightarrow> t < d \<Longrightarrow> drawerStep t c SuccessResetFires x = x"
  by (simp add: drawerStep_def successResetFires_def)

lemma successResetFires_due:
  assumes "successResetTimeout x = Some d" and "d \<le> t"
  shows "\<not> registrationSuccess (drawerStep t c SuccessResetFires x)"
    "successResetTimeout (drawerStep t c SuccessResetFires x) = None"
    "isOpen (drawerStep t c SuccessResetFires x) = isOpen x"
    "isWaitingForEmail (drawerStep t c SuccessResetFires x) = isWaitingForEmail x"
  using assms
  by (simp_all add: drawerStep_def successResetFires_def render_successResetTimeout)

lemma handler_successResetTimeout:
  "ev \<noteq> SuccessResetFires \<Longrightarrow>
   successResetTimeout (drawerHandler now cs ev s) = successResetTimeout s"
  by (cases ev)
     (simp_all add: openDrawer_def closeDrawer_def toggleDrawer_def setIsWaitingForEmail_def
        setRegistrationSuccess_def autoCloseFires_def forceCloseFires_def
        split: option.splits)

lemma handler_keeps_modes:
  assumes "isOperation ev"
    and "\<not> isWaitingForEmail s" and "\<not> registrationSuccess s"
  shows "\<not> isWaitingForEmail (drawerHandler now cs ev s)
       \<and> \<not> registrationSuccess (drawerHandler now cs ev s)"
  using assms
  by (cases ev)
     (simp_all add: openDrawer_def closeDrawer_def toggleDrawer_def autoCloseFires_def
        successResetFires_def forceCloseFires_def Let_def split: option.splits)

lemma step_keeps_modes:
  assumes "isOperation ev"
    and "\<not> isWaitingForEmail s" and "\<not> registrationSuccess s"
  shows "\<not> isWaitingForEmail (drawerStep now cs ev s)
       \<and> \<not> registrationSuccess (drawerStep now cs ev s)"
  using handler_keeps_modes [OF assms] by (simp add: drawerStep_def)

lemma run_keeps_modes:
  assumes "list_all (\<lambda>(now, cs, ev). isOperation ev) evs"
    and "\<not> isWaitingForEmail s" and "\<not> registrationSuccess s"
  shows "\<not> isWaitingForEmail (runDrawer evs s) \<and> \<not> registrationSuccess (runDrawer evs s)"
  using assms
proof (induction evs arbitrary: s)
  case Nil
  then show ?case by simp
next
  case (Cons e evs)
  obtain now cs ev where e: "e = (now, cs, ev)" by (cases e) auto
  from Cons.prems e have op: "isOperation ev"
    and rest: "list_all (\<lambda>(now, cs, ev). isOperation ev) evs" by simp_all
  from step_keeps_modes [OF op Cons.prems(2) Cons.prems(3)]
  have "\<not> isWaitingForEmail (drawerStep now cs ev s)"
    and "\<not> registrationSuccess (drawerStep now cs ev s)" by simp_all
  from Cons.IH [OF rest this] show ?case by (simp add: e)
qed

text \<open>
  C1. Starting from the initial state (drawer closed, both sub-modes false), after any
  sequence of open, close and toggle operations, at any times, under any chat status and
  with the provider's timers firing in between, \<^verbatim>\<open>isWaitingForEmail\<close> and
  \<^verbatim>\<open>registrationSuccess\<close> are not both true (neither is ever set).
\<close>

theorem modes_never_both:
  assumes "list_all (\<lambda>(now, cs, ev). isOperation ev) evs"
  shows "\<not> (isWaitingForEmail (runDrawer evs initialDrawer)
          \<and> registrationSuccess (runDrawer evs initialDrawer))"
  using run_keeps_modes [OF assms, of initialDrawer] by (simp add: initialDrawer_def)

theorem modes_never_both_witness:
  "list_all (\<lambda>(now, cs, ev). isOperation ev)
     [(10000, Some Ready, OpenDrawer True), (10500, Some Streaming, ToggleDrawer),
      (10550, Some Ready, ForceCloseFires), (13000, Some Ready, ToggleDrawer),
      (14000, None, CloseDrawer)]
   \<and> \<not> (isWaitingForEmail (runDrawer
            [(10000, Some Ready, OpenDrawer True), (10500, Some Streaming, ToggleDrawer),
             (10550, Some Ready, ForceCloseFires), (13000, Some Ready, ToggleDrawer),
             (14000, None, CloseDrawer)] initialDrawer)
        \<and> registrationSuccess (runDrawer
            [(10000, Some Ready, OpenDrawer True), (10500, Some Streaming, ToggleDrawer),
             (10550, Some Ready, ForceCloseFires), (13000, Some Ready, ToggleDrawer),
             (14000, None, CloseDrawer)] initialDrawer))"
  using modes_never_both
    [of "[(10000, Some Ready, OpenDrawer True), (10500, Some Streaming, ToggleDrawer),
          (10550, Some Ready, ForceCloseFires), (13000, Some Ready, ToggleDrawer),
          (14000, None, CloseDrawer)]"]
  by simp

text \<open>
  C2. For every state and every requested origin, \<^verbatim>\<open>openDrawer\<close> changes nothing
  when the assistant is busy (status streaming or submitted) or when fewer than 2000 ms
  have passed since the recorded close; otherwise it sets \<^verbatim>\<open>isOpen\<close> and sets the
  origin to the requested one.
\<close>

theorem openDrawer_spec:
  "((cs = Some Streaming \<or> cs = Some Submitted \<or> now - lastCloseTimeRef s < 2000) \<longrightarrow>
      openDrawer now cs isAutomatic s = s
      \<and> drawerStep now cs (OpenDrawer isAutomatic) s = s)
   \<and> (cs \<noteq> Some Streaming \<and> cs \<noteq> Some Submitted \<and> 2000 \<le> now - lastCloseTimeRef s \<longrightarrow>
      openDrawer now cs isAutomatic s = s\<lparr>isOpen := True, isAutomaticOpen := isAutomatic\<rparr>
      \<and> isOpen (drawerStep now cs (OpenDrawer isAutomatic) s)
      \<and> isAutomaticOpen (drawerStep now cs (OpenDrawer isAutomatic) s) = isAutomatic
      \<and> origin (drawerStep now cs (OpenDrawer isAutomatic) s) = requested isAutomatic)"
  by (auto simp add: openDrawer_def drawerStep_def isAIWriting_def origin_def requested_def)

theorem openDrawer_spec_witness:
  "(Some Streaming = Some Streaming \<or> Some Streaming = Some Submitted
      \<or> (10000::int) - lastCloseTimeRef initialDrawer < 2000)
   \<and> drawerStep 10000 (Some Streaming) (OpenDrawer True) initialDrawer = initialDrawer
   \<and> (Some Ready \<noteq> Some Streaming \<and> Some Ready \<noteq> Some Submitted
      \<and> 2000 \<le> (10000::int) - lastCloseTimeRef initialDrawer)
   \<and> origin (drawerStep 10000 (Some Ready) (OpenDrawer True) initialDrawer) = Automatic"
  using openDrawer_spec [of "Some Streaming" 10000 initialDrawer True]
    openDrawer_spec [of "Some Ready" 10000 initialDrawer True]
  by (simp add: initialDrawer_def requested_def)




text \<open>
  C4, as the code has it. The window of 2000 ms is counted from the last call of
  \<^verbatim>\<open>closeDrawer\<close>, not from an open. After an \<^verbatim>\<open>openDrawer(true)\<close> that succeeds,
  a further open call at any later time succeeds when the assistant is idle, however
  short the delay, and sets the origin to the newly requested one; it changes nothing
  when the assistant is busy. After a \<^verbatim>\<open>closeDrawer\<close> at time \<open>T\<close>, an open call
  earlier than \<open>T + 2000\<close> changes nothing and one at \<open>T + 2000\<close> or later succeeds
  when the assistant is idle.
\<close>

theorem reopen_spec:
  assumes idle: "\<not> isAIWriting cs"
    and late: "2000 \<le> now - lastCloseTimeRef s"
  shows
    "(\<forall>t c a. now \<le> t \<and> \<not> isAIWriting c \<longrightarrow>
        isOpen (drawerStep t c (OpenDrawer a) (drawerStep now cs (OpenDrawer True) s))
        \<and> isAutomaticOpen (drawerStep t c (OpenDrawer a) (drawerStep now cs (OpenDrawer True) s))
            = a
        \<and> origin (drawerStep t c (OpenDrawer a) (drawerStep now cs (OpenDrawer True) s))
            = requested a)
     \<and> (\<forall>t c a. isAIWriting c \<longrightarrow>
          drawerStep t c (OpenDrawer a) (drawerStep now cs (OpenDrawer True) s)
            = drawerStep now cs (OpenDrawer True) s)
     \<and> (\<forall>T c t c' a. t - T < 2000 \<longrightarrow>
          drawerStep t c' (OpenDrawer a)
            (drawerStep T c CloseDrawer (drawerStep now cs (OpenDrawer True) s))
            = drawerStep T c CloseDrawer (drawerStep now cs (OpenDrawer True) s))
     \<and> (\<forall>T c t c' a. 2000 \<le> t - T \<and> \<not> isAIWriting c' \<longrightarrow>
          isOpen (drawerStep t c' (OpenDrawer a)
            (drawerStep T c CloseDrawer (drawerStep now cs (OpenDrawer True) s)))
          \<and> origin (drawerStep t c' (OpenDrawer a)
            (drawerStep T c CloseDrawer (drawerStep now cs (OpenDrawer True) s)))
              = requested a)"
    (is "?A \<and> ?B \<and> ?C \<and> ?D")
proof -
  let ?o = "drawerStep now cs (OpenDrawer True) s"
  have a: ?A
  proof (intro allI impI)
    fix t c a
    assume h: "now \<le> t \<and> \<not> isAIWriting c"
    with late have l: "2000 \<le> t - lastCloseTimeRef ?o" by (simp add: open_keeps)
    from h have i: "\<not> isAIWriting c" by simp
    show "isOpen (drawerStep t c (OpenDrawer a) ?o)
        \<and> isAutomaticOpen (drawerStep t c (OpenDrawer a) ?o) = a
        \<and> origin (drawerStep t c (OpenDrawer a) ?o) = requested a"
      using open_succeeds [OF i l] by simp
  qed
  have b: ?B by (simp add: open_noop)
  have c: ?C by (simp add: open_noop close_records)
  have d: ?D by (simp add: open_succeeds close_records)
  show ?thesis by (rule conjI [OF a conjI [OF b conjI [OF c d]]])
qed

theorem reopen_spec_witness:
  "\<not> isAIWriting (Some Ready) \<and> 2000 \<le> 10000 - lastCloseTimeRef initialDrawer
   \<and> origin (drawerStep 10100 (Some Ready) (OpenDrawer False)
        (drawerStep 10000 (Some Ready) (OpenDrawer True) initialDrawer)) = Manual
   \<and> drawerStep 10100 (Some Streaming) (OpenDrawer False)
        (drawerStep 10000 (Some Ready) (OpenDrawer True) initialDrawer)
       = drawerStep 10000 (Some Ready) (OpenDrawer True) initialDrawer
   \<and> drawerStep 13999 (Some Ready) (OpenDrawer True)
        (drawerStep 12000 (Some Ready) CloseDrawer
          (drawerStep 10000 (Some Ready) (OpenDrawer True) initialDrawer))
       = drawerStep 12000 (Some Ready) CloseDrawer
          (drawerStep 10000 (Some Ready) (OpenDrawer True) initialDrawer)
   \<and> isOpen (drawerStep 14000 (Some Ready) (OpenDrawer True)
        (drawerStep 12000 (Some Ready) CloseDrawer
          (drawerStep 10000 (Some Ready) (OpenDrawer True) initialDrawer)))"
proof -
  have h1: "\<not> isAIWriting (Some Ready)" by (simp add: isAIWriting_def)
  have h2: "2000 \<le> 10000 - lastCloseTimeRef initialDrawer" by (simp add: initialDrawer_def)
  have h3: "isAIWriting (Some Streaming)" by (simp add: isAIWriting_def)
  from reopen_spec [OF h1 h2] h1 h2 h3 show ?thesis by (simp add: requested_def)
qed

text \<open>
  The claim as written fails: \<^verbatim>\<open>openDrawer(true)\<close> succeeds at 10000 on the initial
  state, and \<^verbatim>\<open>openDrawer(false)\<close> 100 ms later, with the assistant idle, is not a
  no-op: it changes the origin from automatic to manual and cancels the auto-close
  timer.
\<close>

theorem reopen_counterexample:
  "isOpen (drawerStep 10000 (Some Ready) (OpenDrawer True) initialDrawer)
   \<and> origin (drawerStep 10000 (Some Ready) (OpenDrawer True) initialDrawer) = Automatic
   \<and> origin (drawerStep 10100 (Some Ready) (OpenDrawer False)
        (drawerStep 10000 (Some Ready) (OpenDrawer True) initialDrawer)) = Manual
   \<and> \<not> isAutomaticOpen (drawerStep 10100 (Some Ready) (OpenDrawer False)
        (drawerStep 10000 (Some Ready) (OpenDrawer True) initialDrawer))
   \<and> autoCloseTimeout (drawerStep 10000 (Some Ready) (OpenDrawer True) initialDrawer)
        = Some 18000
   \<and> autoCloseTimeout (drawerStep 10100 (Some Ready) (OpenDrawer False)
        (drawerStep 10000 (Some Ready) (OpenDrawer True) initialDrawer)) = None
   \<and> drawerStep 10100 (Some Ready) (OpenDrawer False)
        (drawerStep 10000 (Some Ready) (OpenDrawer True) initialDrawer)
       \<noteq> drawerStep 10000 (Some Ready) (OpenDrawer True) initialDrawer"
proof -
  have a: "isOpen (drawerStep 10000 (Some Ready) (OpenDrawer True) initialDrawer)"
    "origin (drawerStep 10000 (Some Ready) (OpenDrawer True) initialDrawer) = Automatic"
    "autoCloseTimeout (drawerStep 10000 (Some Ready) (OpenDrawer True) initialDrawer)
        = Some 18000"
    by (simp_all add: drawerStep_def render_autoCloseTimeout openDrawer_def origin_def
        isAIWriting_def initialDrawer_def)
  have b: "origin (drawerStep 10100 (Some Ready) (OpenDrawer False)
        (drawerStep 10000 (Some Ready) (OpenDrawer True) initialDrawer)) = Manual"
    "\<not> isAutomaticOpen (drawerStep 10100 (Some Ready) (OpenDrawer False)
        (drawerStep 10000 (Some Ready) (OpenDrawer True) initialDrawer))"
    "autoCloseTimeout (drawerStep 10100 (Some Ready) (OpenDrawer False)
        (drawerStep 10000 (Some Ready) (OpenDrawer True) initialDrawer)) = None"
    by (simp_all add: drawerStep_def render_autoCloseTimeout openDrawer_def origin_def
        isAIWriting_def initialDrawer_def)
  from a(2) b(1) have "drawerStep 10100 (Some Ready) (OpenDrawer False)
        (drawerStep 10000 (Some Ready) (OpenDrawer True) initialDrawer)
       \<noteq> drawerStep 10000 (Some Ready) (OpenDrawer True) initialDrawer"
    by auto
  with a b show ?thesis by simp
qed

text \<open>
  C5. In every reachable state \<^verbatim>\<open>closeDrawer\<close> sets \<^verbatim>\<open>isOpen\<close> to false, the
  origin to none and \<^verbatim>\<open>isWaitingForEmail\<close> to false, records the current time as
  the time of the last close, leaves no auto-close timer pending, and schedules for
  50 ms later a callback that sets \<^verbatim>\<open>isOpen\<close> to false again; running that
  callback twice is the same as running it once.
\<close>

theorem closeDrawer_spec:
  assumes "autoCloseArmed s"
  shows "\<not> isOpen (drawerStep now cs CloseDrawer s)
       \<and> \<not> isAutomaticOpen (drawerStep now cs CloseDrawer s)
       \<and> origin (drawerStep now cs CloseDrawer s) = NoOrigin
       \<and> \<not> isWaitingForEmail (drawerStep now cs CloseDrawer s)
       \<and> lastCloseTimeRef (drawerStep now cs CloseDrawer s) = now
       \<and> registrationSuccess (drawerStep now cs CloseDrawer s) = registrationSuccess s
       \<and> autoCloseTimeout (drawerStep now cs CloseDrawer s) = None
       \<and> forceCloseTimeouts (drawerStep now cs CloseDrawer s) = forceCloseTimeouts s @ [now + 50]
       \<and> (\<forall>t cs'. now + 50 \<le> t \<longrightarrow>
            drawerStep t cs' ForceCloseFires (drawerStep now cs CloseDrawer s)
              = (drawerStep now cs CloseDrawer s)
                  \<lparr>forceCloseTimeouts :=
                     filter (\<lambda>d. t < d) (forceCloseTimeouts s @ [now + 50])\<rparr>)
       \<and> (\<forall>t x. forceCloseFires t (forceCloseFires t x) = forceCloseFires t x)
       \<and> (\<forall>d x t cs'. d \<in> set (forceCloseTimeouts x) \<and> d \<le> t \<longrightarrow>
            \<not> isOpen (forceCloseFires t x)
            \<and> \<not> isOpen (drawerStep t cs' ForceCloseFires x)
            \<and> d \<notin> set (forceCloseTimeouts (drawerStep t cs' ForceCloseFires x)))"
proof -
  let ?s' = "drawerStep now cs CloseDrawer s"
  have fields: "\<not> isOpen ?s'" "\<not> isAutomaticOpen ?s'" "\<not> isWaitingForEmail ?s'"
    "lastCloseTimeRef ?s' = now" "registrationSuccess ?s' = registrationSuccess s"
    "forceCloseTimeouts ?s' = forceCloseTimeouts s @ [now + 50]"
    by (simp_all add: drawerStep_def closeDrawer_def)
  have orig: "origin ?s' = NoOrigin" using fields(1) by (simp add: origin_def)
  have timer: "autoCloseTimeout ?s' = None" by (rule close_disarms [OF assms])
  have mem: "now + 50 \<in> set (forceCloseTimeouts ?s')" by (simp add: fields(6))
  have fire: "\<forall>t cs'. now + 50 \<le> t \<longrightarrow>
      drawerStep t cs' ForceCloseFires ?s'
        = ?s'\<lparr>forceCloseTimeouts := filter (\<lambda>d. t < d) (forceCloseTimeouts s @ [now + 50])\<rparr>"
    using forceCloseFires_closed [OF fields(1) mem] unfolding fields(6) by blast
  have idem: "\<forall>t x. forceCloseFires t (forceCloseFires t x) = forceCloseFires t x"
    using forceCloseFires_idem by blast
  have any: "\<forall>d x t cs'. d \<in> set (forceCloseTimeouts x) \<and> d \<le> t \<longrightarrow>
            \<not> isOpen (forceCloseFires t x)
            \<and> \<not> isOpen (drawerStep t cs' ForceCloseFires x)
            \<and> d \<notin> set (forceCloseTimeouts (drawerStep t cs' ForceCloseFires x))"
  proof (intro allI impI)
    fix d :: int and x :: drawer_state and t :: int and cs' :: "chat_status option"
    assume h: "d \<in> set (forceCloseTimeouts x) \<and> d \<le> t"
    then have m: "d \<in> set (forceCloseTimeouts x)" and le: "d \<le> t" by simp_all
    note closed = forceCloseFires_due [OF m le]
    from m le have due: "filter (\<lambda>d. d \<le> t) (forceCloseTimeouts x) \<noteq> []"
      by (auto simp add: filter_empty_conv)
    then have "forceCloseTimeouts (forceCloseFires t x)
        = filter (\<lambda>d. t < d) (forceCloseTimeouts x)"
      by (simp add: forceCloseFires_def)
    with le have gone: "d \<notin> set (forceCloseTimeouts (forceCloseFires t x))" by simp
    show "\<not> isOpen (forceCloseFires t x)
            \<and> \<not> isOpen (drawerStep t cs' ForceCloseFires x)
            \<and> d \<notin> set (forceCloseTimeouts (drawerStep t cs' ForceCloseFires x))"
      using closed gone by (simp add: drawerStep_def)
  qed
  show ?thesis
    by (rule conjI [OF fields(1) conjI [OF fields(2) conjI [OF orig conjI [OF fields(3)
          conjI [OF fields(4) conjI [OF fields(5) conjI [OF timer conjI [OF fields(6)
          conjI [OF fire conjI [OF idem any]]]]]]]]]])
qed

theorem closeDrawer_spec_witness:
  "autoCloseArmed (drawerStep 10000 (Some Ready) (OpenDrawer True) initialDrawer)
   \<and> isOpen (drawerStep 10000 (Some Ready) (OpenDrawer True) initialDrawer)
   \<and> autoCloseTimeout (drawerStep 10000 (Some Ready) (OpenDrawer True) initialDrawer) = Some 18000
   \<and> \<not> isOpen (drawerStep 12000 (Some Ready) CloseDrawer
          (drawerStep 10000 (Some Ready) (OpenDrawer True) initialDrawer))
   \<and> lastCloseTimeRef (drawerStep 12000 (Some Ready) CloseDrawer
          (drawerStep 10000 (Some Ready) (OpenDrawer True) initialDrawer)) = 12000
   \<and> autoCloseTimeout (drawerStep 12000 (Some Ready) CloseDrawer
          (drawerStep 10000 (Some Ready) (OpenDrawer True) initialDrawer)) = None
   \<and> \<not> isOpen (drawerStep 12050 (Some Ready) ForceCloseFires
          (drawerStep 12000 (Some Ready) CloseDrawer
            (drawerStep 10000 (Some Ready) (OpenDrawer True) initialDrawer)))
   \<and> 12050 \<in> set (forceCloseTimeouts
          (drawerStep 14000 (Some Ready) (OpenDrawer False)
            (drawerStep 12000 (Some Ready) CloseDrawer
              (drawerStep 10000 (Some Ready) (OpenDrawer True) initialDrawer))))
   \<and> isOpen (drawerStep 14000 (Some Ready) (OpenDrawer False)
          (drawerStep 12000 (Some Ready) CloseDrawer
            (drawerStep 10000 (Some Ready) (OpenDrawer True) initialDrawer)))
   \<and> \<not> isOpen (drawerStep 14100 (Some Ready) ForceCloseFires
          (drawerStep 14000 (Some Ready) (OpenDrawer False)
            (drawerStep 12000 (Some Ready) CloseDrawer
              (drawerStep 10000 (Some Ready) (OpenDrawer True) initialDrawer))))"
proof -
  have armed: "autoCloseArmed (drawerStep 10000 (Some Ready) (OpenDrawer True) initialDrawer)"
    by (simp add: autoCloseArmed_def drawerStep_def render_autoCloseTimeout openDrawer_def
        isAIWriting_def initialDrawer_def)
  have before: "isOpen (drawerStep 10000 (Some Ready) (OpenDrawer True) initialDrawer)"
    "autoCloseTimeout (drawerStep 10000 (Some Ready) (OpenDrawer True) initialDrawer) = Some 18000"
    by (simp_all add: drawerStep_def render_autoCloseTimeout openDrawer_def
        isAIWriting_def initialDrawer_def)
  let ?r = "drawerStep 14000 (Some Ready) (OpenDrawer False)
          (drawerStep 12000 (Some Ready) CloseDrawer
            (drawerStep 10000 (Some Ready) (OpenDrawer True) initialDrawer))"
  have reopened: "12050 \<in> set (forceCloseTimeouts ?r)" "isOpen ?r"
    by (simp_all add: drawerStep_def openDrawer_def closeDrawer_def isAIWriting_def
        initialDrawer_def)
  note spec = closeDrawer_spec [OF armed, of 12000 "Some Ready"]
  note c1 = spec [THEN conjunct1]
  note c5 = spec [THEN conjunct2, THEN conjunct2, THEN conjunct2, THEN conjunct2,
      THEN conjunct1]
  note c7 = spec [THEN conjunct2, THEN conjunct2, THEN conjunct2, THEN conjunct2,
      THEN conjunct2, THEN conjunct2, THEN conjunct1]
  note c11 = spec [THEN conjunct2, THEN conjunct2, THEN conjunct2, THEN conjunct2,
      THEN conjunct2, THEN conjunct2, THEN conjunct2, THEN conjunct2, THEN conjunct2,
      THEN conjunct2, rule_format]
  have m0: "12050 \<in> set (forceCloseTimeouts (drawerStep 12000 (Some Ready) CloseDrawer
          (drawerStep 10000 (Some Ready) (OpenDrawer True) initialDrawer)))"
    by (simp add: drawerStep_def closeDrawer_def)
  have soon: "\<not> isOpen (drawerStep 12050 (Some Ready) ForceCloseFires
          (drawerStep 12000 (Some Ready) CloseDrawer
            (drawerStep 10000 (Some Ready) (OpenDrawer True) initialDrawer)))"
    using c11 [of 12050 _ 12050 "Some Ready"] m0 by simp
  have late: "\<not> isOpen (drawerStep 14100 (Some Ready) ForceCloseFires ?r)"
    using c11 [of 12050 ?r 14100 "Some Ready"] reopened(1) by simp
  have first: "\<not> isOpen (drawerStep 12000 (Some Ready) CloseDrawer
          (drawerStep 10000 (Some Ready) (OpenDrawer True) initialDrawer))
   \<and> lastCloseTimeRef (drawerStep 12000 (Some Ready) CloseDrawer
          (drawerStep 10000 (Some Ready) (OpenDrawer True) initialDrawer)) = 12000
   \<and> autoCloseTimeout (drawerStep 12000 (Some Ready) CloseDrawer
          (drawerStep 10000 (Some Ready) (OpenDrawer True) initialDrawer)) = None
   \<and> \<not> isOpen (drawerStep 12050 (Some Ready) ForceCloseFires
          (drawerStep 12000 (Some Ready) CloseDrawer
            (drawerStep 10000 (Some Ready) (OpenDrawer True) initialDrawer)))"
    using c1 c5 c7 soon by simp
  from first armed before reopened late show ?thesis by blast
qed

section \<open>Properties of the chat input\<close>

lemma commit_fields [simp]:
  "chatStatus (commit now prev w) = chatStatus w"
  "status (commit now prev w) = status w"
  "messages (commit now prev w) = messages w"
  "input (commit now prev w) = input w"
  "submits (commit now prev w) = submits w"
  "pendingSaves (commit now prev w) = pendingSaves w"
  "errorLog (commit now prev w) = errorLog w"
  "noClickTimeouts (commit now prev w) = noClickTimeouts w"
  "drawer (commit now prev w) = render now (drawer prev) (drawer w)"
  by (simp_all add: commit_def)

lemma commit_refs:
  "refs (commit now prev w) =
     (if isOpen (drawer prev) \<and> \<not> isOpen (drawer w)
      then startCooldown now (refs w) else refs w)"
  by (simp add: commit_def)

lemma commit_same [simp]: "commit now w w = w"
  by (simp add: commit_def)

lemma valid_example: "regexTest emailRegex ''a@b.co''"
  by code_simp

lemma invalid_example: "\<not> regexTest emailRegex ''not-an-email''"
  by code_simp

lemma capturing_state:
  "isOpen (drawer (capturing text))" "isWaitingForEmail (drawer (capturing text))"
  "input (capturing text) = text" "submits (capturing text) = []"
  "\<not> registrationSuccess (drawer (capturing text))"
  "pendingSaves (capturing text) = []"
  "status (capturing text) = Ready" "chatStatus (capturing text) = Some Ready"
  by (simp_all add: capturing_def mount_def intentEffect_def checkForRegistrationIntent_def
      startCooldown_def worldStep_def safeToggleDrawer_def toggleDrawer_def openDrawer_def
      isAIWriting_def initialDrawer_def drawerIsVisible_def questionIsVisible_def
      handleYesClick_def
      setIsWaitingForEmail_def)



lemma intentEffect_unfold:
  "intentEffect now w =
     (if (status w = Ready \<or> status w = Error)
         \<and> \<not> cooldownRef (refs w) \<and> \<not> isOpen (drawer w)
         \<and> messages w \<noteq> [] \<and> role (last (messages w)) = ''user''
         \<and> hasIntent (toLowerCase (content (last (messages w))))
         \<and> \<not> isAIWriting (chatStatus w)
      then w\<lparr>drawer := openDrawer now (chatStatus w) True (drawer w)\<rparr>
      else w)"
  by (simp add: intentEffect_def checkForRegistrationIntent_def lastMessage_def)

lemmas world_defs =
  mount_def intentEffect_def checkForRegistrationIntent_def startCooldown_def cooldownFires_def
  worldStep_def safeToggleDrawer_def toggleDrawer_def openDrawer_def closeDrawer_def
  isAIWriting_def initialDrawer_def commit_refs



lemma closedRecently_state:
  "status closedRecently = Ready" "\<not> isOpen (drawer closedRecently)"
  "\<not> cooldownRef (refs closedRecently)"
  "messages closedRecently = [\<lparr>role = ''user'', content = ''I'd like to sign up''\<rparr>]"
  "chatStatus closedRecently = Some Ready" "lastCloseTimeRef (drawer closedRecently) = 9500"
  by (simp_all add: closedRecently_def world_defs)


subsection \<open>The email pattern\<close>

lemma conc_Nil: "[] \<in> conc A B \<longleftrightarrow> [] \<in> A \<and> [] \<in> B"
  by (auto simp add: conc_def)

lemma conc_Cons:
  "c # s \<in> conc A B \<longleftrightarrow>
     ([] \<in> A \<and> c # s \<in> B) \<or> (\<exists>xs ys. s = xs @ ys \<and> c # xs \<in> A \<and> ys \<in> B)"
  by (auto simp add: conc_def Cons_eq_append_conv)

lemma conc_iff: "s \<in> conc A B \<longleftrightarrow> (\<exists>xs ys. s = xs @ ys \<and> xs \<in> A \<and> ys \<in> B)"
  by (auto simp add: conc_def)

lemma star_Cons_split:
  assumes "w \<in> star A" and "w = c # s"
  shows "\<exists>xs ys. s = xs @ ys \<and> c # xs \<in> A \<and> ys \<in> star A"
  using assms
proof (induction arbitrary: s rule: star.induct)
  case star_empty
  then show ?case by simp
next
  case (star_more x xs)
  show ?case
  proof (cases x)
    case Nil
    with star_more show ?thesis by simp
  next
    case (Cons d x')
    with star_more.prems have "d = c" and "s = x' @ xs" by simp_all
    with star_more.hyps Cons show ?thesis by blast
  qed
qed

lemma star_Cons:
  "c # s \<in> star A \<longleftrightarrow> (\<exists>xs ys. s = xs @ ys \<and> c # xs \<in> A \<and> ys \<in> star A)"
proof
  assume "c # s \<in> star A"
  then show "\<exists>xs ys. s = xs @ ys \<and> c # xs \<in> A \<and> ys \<in> star A"
    by (rule star_Cons_split) simp
next
  assume "\<exists>xs ys. s = xs @ ys \<and> c # xs \<in> A \<and> ys \<in> star A"
  then obtain xs ys where "s = xs @ ys" "c # xs \<in> A" "ys \<in> star A" by blast
  then show "c # s \<in> star A" using star_more [of "c # xs" A ys] by simp
qed

lemma nullable_lang: "nullable r \<longleftrightarrow> [] \<in> lang r"
  by (induction r) (auto simp add: conc_Nil star_empty)

lemma deriv_lang: "s \<in> lang (deriv c r) \<longleftrightarrow> c # s \<in> lang r"
proof (induction r arbitrary: s)
  case (Seq r1 r2)
  have l: "s \<in> conc (lang (deriv c r1)) (lang r2)
      \<longleftrightarrow> (\<exists>xs ys. s = xs @ ys \<and> c # xs \<in> lang r1 \<and> ys \<in> lang r2)"
    by (simp add: conc_iff Seq.IH)
  show ?case
  proof (cases "nullable r1")
    case True
    then have "[] \<in> lang r1" by (simp add: nullable_lang)
    with True show ?thesis by (auto simp add: conc_Cons l Seq.IH)
  next
    case False
    then have "[] \<notin> lang r1" by (simp add: nullable_lang)
    with False show ?thesis by (simp add: conc_Cons l)
  qed
next
  case (Star r)
  show ?case by (simp add: conc_iff Star.IH star_Cons)
qed auto

lemma regexTest_lang: "regexTest r s \<longleftrightarrow> s \<in> lang r"
  by (induction s arbitrary: r) (simp_all add: nullable_lang deriv_lang)

lemma star_Sym: "s \<in> star (lang (Sym p)) \<longleftrightarrow> list_all p s"
proof
  assume "s \<in> star (lang (Sym p))"
  then show "list_all p s" by (induction rule: star.induct) auto
next
  assume "list_all p s"
  then show "s \<in> star (lang (Sym p))"
  proof (induction s)
    case Nil
    show ?case by (rule star_empty)
  next
    case (Cons c s)
    then have "[c] \<in> lang (Sym p)" and "s \<in> star (lang (Sym p))" by simp_all
    from star_more [OF this] show ?case by simp
  qed
qed

lemma lang_Sym_eq: "s \<in> lang (Sym (\<lambda>c. c = a)) \<longleftrightarrow> s = [a]"
  by auto

lemma concI: "x \<in> A \<Longrightarrow> y \<in> B \<Longrightarrow> x @ y \<in> conc A B"
  by (auto simp add: conc_def)

lemma concE:
  assumes "s \<in> conc A B"
  obtains x y where "s = x @ y" and "x \<in> A" and "y \<in> B"
  using assms by (auto simp add: conc_def)

lemma lang_OneOrMore_Sym:
  "s \<in> lang (OneOrMore (Sym p)) \<longleftrightarrow> s \<noteq> [] \<and> list_all p s"
proof
  assume "s \<in> lang (OneOrMore (Sym p))"
  then have "s \<in> conc (lang (Sym p)) (star (lang (Sym p)))"
    by (simp add: OneOrMore_def)
  then obtain x y where s: "s = x @ y" and x: "x \<in> lang (Sym p)"
    and y: "y \<in> star (lang (Sym p))" by (rule concE)
  from x obtain c where "x = [c]" and "p c" by auto
  moreover from y have "list_all p y" by (simp only: star_Sym)
  ultimately show "s \<noteq> [] \<and> list_all p s" using s by simp
next
  assume a: "s \<noteq> [] \<and> list_all p s"
  then obtain c ys where s: "s = [c] @ ys" by (cases s) auto
  with a have "[c] \<in> lang (Sym p)" and "ys \<in> star (lang (Sym p))"
    by (simp_all add: star_Sym del: lang.simps)  (simp)
  from concI [OF this] show "s \<in> lang (OneOrMore (Sym p))"
    by (simp add: OneOrMore_def s)
qed

text \<open>
  The test of \<^verbatim>\<open>handleEmailSubmit\<close> accepts exactly the strings made of a local part,
  an at sign, a name, a dot and a rest, the three parts non-empty and free of white
  space and of at signs (the name and the rest may contain further dots).
\<close>

theorem emailRegex_pattern:
  "regexTest emailRegex s =
     (\<exists>localPart name tld.
        s = localPart @ ''@'' @ name @ ''.'' @ tld
        \<and> localPart \<noteq> [] \<and> name \<noteq> [] \<and> tld \<noteq> []
        \<and> list_all notSpaceNorAt localPart \<and> list_all notSpaceNorAt name
        \<and> list_all notSpaceNorAt tld)"
    (is "_ = ?rhs")
proof -
  let ?A = "lang (OneOrMore (Sym notSpaceNorAt))"
  let ?B = "lang (Sym (\<lambda>c. c = CHR ''@''))"
  let ?D = "lang (Sym (\<lambda>c. c = CHR ''.''))"
  have unfold: "regexTest emailRegex s \<longleftrightarrow> s \<in> conc ?A (conc ?B (conc ?A (conc ?D ?A)))"
    by (simp only: regexTest_lang emailRegex_def lang.simps(4))
  have "s \<in> conc ?A (conc ?B (conc ?A (conc ?D ?A))) \<longleftrightarrow> ?rhs"
  proof
    assume "s \<in> conc ?A (conc ?B (conc ?A (conc ?D ?A)))"
    then obtain l y1 where 1: "s = l @ y1" "l \<in> ?A"
      and r1: "y1 \<in> conc ?B (conc ?A (conc ?D ?A))" by (rule concE)
    from r1 obtain a y2 where 2: "y1 = a @ y2" "a \<in> ?B"
      and r2: "y2 \<in> conc ?A (conc ?D ?A)" by (rule concE)
    from r2 obtain n y3 where 3: "y2 = n @ y3" "n \<in> ?A"
      and r3: "y3 \<in> conc ?D ?A" by (rule concE)
    from r3 obtain d t where 4: "y3 = d @ t" "d \<in> ?D" "t \<in> ?A" by (rule concE)
    from 2(2) 4(2) have "a = ''@''" "d = ''.''" by (simp_all only: lang_Sym_eq)
    with 1 2 3 4 have "s = l @ ''@'' @ n @ ''.'' @ t" by simp
    moreover from 1(2) 3(2) 4(3)
    have "l \<noteq> [] \<and> list_all notSpaceNorAt l" "n \<noteq> [] \<and> list_all notSpaceNorAt n"
      "t \<noteq> [] \<and> list_all notSpaceNorAt t"
      by (simp_all add: lang_OneOrMore_Sym)
    ultimately show ?rhs by blast
  next
    assume ?rhs
    then obtain l n t where s: "s = l @ ''@'' @ n @ ''.'' @ t"
      and "l \<noteq> [] \<and> list_all notSpaceNorAt l" "n \<noteq> [] \<and> list_all notSpaceNorAt n"
      "t \<noteq> [] \<and> list_all notSpaceNorAt t" by blast
    then have m: "l \<in> ?A" "n \<in> ?A" "t \<in> ?A" by (simp_all add: lang_OneOrMore_Sym)
    have b: "''@'' \<in> ?B" and d: "''.'' \<in> ?D" by (simp_all only: lang_Sym_eq)
    show "s \<in> conc ?A (conc ?B (conc ?A (conc ?D ?A)))"
      unfolding s by (intro concI m b d)
  qed
  with unfold show ?thesis by simp
qed




text \<open>
  Both cooldowns have to be over. The drawer is opened by the plus button at 5000 and
  closed by the Escape key at 9500; at 10000 the timer of the mount clears the cooldown
  flag; at 10100 the last message is the user's "I'd like to sign up" and the intent
  effect calls \<^verbatim>\<open>openDrawer(true)\<close>, which returns early, 600 ms after the close.
\<close>

lemma intentEffect_recent_close:
  "status closedRecently = Ready \<and> \<not> isOpen (drawer closedRecently)
   \<and> \<not> cooldownRef (refs closedRecently)
   \<and> messages closedRecently = [\<lparr>role = ''user'', content = ''I'd like to sign up''\<rparr>]
   \<and> chatStatus closedRecently = Some Ready
   \<and> lastCloseTimeRef (drawer closedRecently) = 9500
   \<and> \<not> isOpen (drawer (worldStep 10100 IntentEffectRuns closedRecently))
   \<and> worldStep 10100 IntentEffectRuns closedRecently = closedRecently"
proof -
  have "intentEffect 10100 closedRecently = closedRecently"
    by (simp add: intentEffect_unfold closedRecently_state openDrawer_def)
  then have "worldStep 10100 IntentEffectRuns closedRecently = closedRecently"
    by (simp add: worldStep_def)
  with closedRecently_state show ?thesis by simp
qed

text \<open>
  C7. When \<^verbatim>\<open>isWaitingForEmail\<close> is true, the input matches the email pattern and
  \<^verbatim>\<open>saveEmail\<close> succeeds, \<^verbatim>\<open>handleEmailSubmit\<close> sets \<^verbatim>\<open>registrationSuccess\<close>,
  closes the drawer, clears \<^verbatim>\<open>isWaitingForEmail\<close> and the input, sets the cooldown
  with its 10 s timer, and does not call \<^verbatim>\<open>handleSubmit\<close>.
\<close>

theorem emailSubmit_success:
  assumes waiting: "isWaitingForEmail (drawer w)"
    and valid: "regexTest emailRegex (input w)"
  shows "registrationSuccess (drawer (handleEmailSubmit now True w))
       \<and> \<not> isOpen (drawer (handleEmailSubmit now True w))
       \<and> \<not> isWaitingForEmail (drawer (handleEmailSubmit now True w))
       \<and> lastCloseTimeRef (drawer (handleEmailSubmit now True w)) = now
       \<and> input (handleEmailSubmit now True w) = []
       \<and> cooldownRef (refs (handleEmailSubmit now True w))
       \<and> cooldownTimeouts (refs (handleEmailSubmit now True w))
           = cooldownTimeouts (refs w) @ [now + 10000]
       \<and> submits (handleEmailSubmit now True w) = submits w
       \<and> errorLog (handleEmailSubmit now True w) = errorLog w
       \<and> (pendingSaves w = [] \<longrightarrow>
            saveEmailSettles now True (emailSubmitBegins w) = handleEmailSubmit now True w)"
  using assms
  by (simp add: handleEmailSubmit_def emailSubmitBegins_def saveEmailSettles_def
      setIsWaitingForEmail_def setRegistrationSuccess_def closeDrawer_def startCooldown_def)

theorem emailSubmit_success_witness:
  "isWaitingForEmail (drawer (capturing ''a@b.co''))
   \<and> regexTest emailRegex (input (capturing ''a@b.co''))
   \<and> registrationSuccess (drawer (handleEmailSubmit 8000 True (capturing ''a@b.co'')))
   \<and> \<not> isOpen (drawer (handleEmailSubmit 8000 True (capturing ''a@b.co'')))
   \<and> \<not> isWaitingForEmail (drawer (handleEmailSubmit 8000 True (capturing ''a@b.co'')))
   \<and> input (handleEmailSubmit 8000 True (capturing ''a@b.co'')) = []
   \<and> cooldownRef (refs (handleEmailSubmit 8000 True (capturing ''a@b.co'')))
   \<and> submits (handleEmailSubmit 8000 True (capturing ''a@b.co'')) = []"
proof -
  have h1: "isWaitingForEmail (drawer (capturing ''a@b.co''))" by (rule capturing_state)
  have h2: "regexTest emailRegex (input (capturing ''a@b.co''))"
    by (simp only: capturing_state valid_example)
  from emailSubmit_success [OF h1 h2, of 8000] h1 h2 capturing_state(4) [of "''a@b.co''"]
  show ?thesis by simp
qed

text \<open>
  C8. When \<^verbatim>\<open>isWaitingForEmail\<close> is true and the input does not match the email
  pattern, or \<^verbatim>\<open>saveEmail\<close> fails, \<^verbatim>\<open>handleEmailSubmit\<close> calls
  \<^verbatim>\<open>handleSubmit\<close> with the input; a failed save is logged once; the state of the
  drawer (with \<^verbatim>\<open>isWaitingForEmail\<close> still true) and the cooldown are unchanged, and
  the render that follows changes nothing.
\<close>

theorem emailSubmit_fallthrough:
  assumes waiting: "isWaitingForEmail (drawer w)"
    and failed: "\<not> regexTest emailRegex (input w) \<or> \<not> saveOk"
  shows "drawer (handleEmailSubmit now saveOk w) = drawer w
       \<and> isWaitingForEmail (drawer (handleEmailSubmit now saveOk w))
       \<and> refs (handleEmailSubmit now saveOk w) = refs w
       \<and> submits (handleEmailSubmit now saveOk w) = submits w @ [input w]
       \<and> input (handleEmailSubmit now saveOk w) = input w
       \<and> errorLog (handleEmailSubmit now saveOk w)
           = (if regexTest emailRegex (input w) then Suc (errorLog w) else errorLog w)
       \<and> commit now w (handleEmailSubmit now saveOk w) = handleEmailSubmit now saveOk w
       \<and> (pendingSaves w = [] \<longrightarrow>
            saveEmailSettles now saveOk (emailSubmitBegins w) = handleEmailSubmit now saveOk w)"
  using assms
  by (auto simp add: handleEmailSubmit_def emailSubmitBegins_def saveEmailSettles_def
      handleSubmit_def commit_def)


theorem emailSubmit_fallthrough_witness:
  "isWaitingForEmail (drawer (capturing ''not-an-email''))
   \<and> \<not> regexTest emailRegex (input (capturing ''not-an-email''))
   \<and> isWaitingForEmail (drawer (handleEmailSubmit 8000 True (capturing ''not-an-email'')))
   \<and> isOpen (drawer (handleEmailSubmit 8000 True (capturing ''not-an-email'')))
   \<and> submits (handleEmailSubmit 8000 True (capturing ''not-an-email'')) = [''not-an-email'']
   \<and> isWaitingForEmail (drawer (capturing ''a@b.co''))
   \<and> regexTest emailRegex (input (capturing ''a@b.co''))
   \<and> isWaitingForEmail (drawer (handleEmailSubmit 8000 False (capturing ''a@b.co'')))
   \<and> submits (handleEmailSubmit 8000 False (capturing ''a@b.co'')) = [''a@b.co'']
   \<and> errorLog (handleEmailSubmit 8000 False (capturing ''a@b.co''))
       = Suc (errorLog (capturing ''a@b.co''))"
proof -
  have h1: "isWaitingForEmail (drawer (capturing ''not-an-email''))" by (rule capturing_state)
  have h2: "\<not> regexTest emailRegex (input (capturing ''not-an-email'')) \<or> \<not> True"
    by (simp only: capturing_state invalid_example simp_thms)
  have h3: "isWaitingForEmail (drawer (capturing ''a@b.co''))" by (rule capturing_state)
  have h4: "\<not> regexTest emailRegex (input (capturing ''a@b.co'')) \<or> \<not> False" by simp
  have v: "regexTest emailRegex (input (capturing ''a@b.co''))"
    by (simp only: capturing_state valid_example)
  from emailSubmit_fallthrough [OF h1 h2, of 8000] emailSubmit_fallthrough [OF h3 h4, of 8000]
    h1 h2 h3 v capturing_state
  show ?thesis by simp
qed

text \<open>
  C9, as the code has it. The 500 ms are counted from the render at which the drawer
  being closed and the success flag being set first hold together, which is the later
  of the two changes, not from the moment \<^verbatim>\<open>isOpen\<close> turned false. In a reachable
  state and for any event: a timer is pending exactly when the drawer is closed and the
  flag is set; when the event makes that hold, the timer is armed for 500 ms after the
  event; while it goes on holding the timer keeps its time; when the drawer reopens or
  the flag is cleared the timer is cancelled and cannot fire; and a pending timer cannot
  fire early and, when it fires, clears the flag and nothing else.
\<close>

theorem successReset_spec:
  assumes armed: "successResetArmed s"
  shows
    "successResetArmed (drawerStep now cs ev s)
     \<and> (\<not> (\<not> isOpen s \<and> registrationSuccess s)
          \<and> \<not> isOpen (drawerStep now cs ev s) \<and> registrationSuccess (drawerStep now cs ev s)
        \<longrightarrow> successResetTimeout (drawerStep now cs ev s) = Some (now + 500))
     \<and> (\<not> isOpen s \<and> registrationSuccess s
          \<and> \<not> isOpen (drawerStep now cs ev s) \<and> registrationSuccess (drawerStep now cs ev s)
        \<longrightarrow> successResetTimeout (drawerStep now cs ev s) = successResetTimeout s)
     \<and> (isOpen (drawerStep now cs ev s) \<or> \<not> registrationSuccess (drawerStep now cs ev s)
        \<longrightarrow> successResetTimeout (drawerStep now cs ev s) = None
            \<and> (\<forall>t c. drawerStep t c SuccessResetFires (drawerStep now cs ev s)
                  = drawerStep now cs ev s))
     \<and> (\<forall>d t c. successResetTimeout s = Some d \<longrightarrow>
          (t < d \<longrightarrow> drawerStep t c SuccessResetFires s = s)
          \<and> (d \<le> t \<longrightarrow>
               \<not> registrationSuccess (drawerStep t c SuccessResetFires s)
               \<and> successResetTimeout (drawerStep t c SuccessResetFires s) = None
               \<and> isOpen (drawerStep t c SuccessResetFires s) = isOpen s))"
    (is "?I \<and> ?A \<and> ?K \<and> ?C \<and> ?F")
proof -
  let ?s' = "drawerStep now cs ev s"
  have i: ?I by (rule step_successResetArmed [OF armed])
  have a: ?A
    by (auto simp add: drawerStep_def render_successResetTimeout)
  have k: ?K
  proof (intro impI)
    assume h: "\<not> isOpen s \<and> registrationSuccess s
          \<and> \<not> isOpen ?s' \<and> registrationSuccess ?s'"
    show "successResetTimeout ?s' = successResetTimeout s"
    proof (cases "ev = SuccessResetFires")
      case True
      with h show ?thesis
        by (cases "successResetTimeout s")
           (auto simp add: drawerStep_def successResetFires_def render_successResetTimeout
              split: if_splits)
    next
      case False
      from handler_successResetTimeout [OF this] h show ?thesis
        by (simp add: drawerStep_def render_successResetTimeout)
    qed
  qed
  have c: ?C
  proof (intro impI)
    assume "isOpen ?s' \<or> \<not> registrationSuccess ?s'"
    with i have n: "successResetTimeout ?s' = None"
      by (auto simp add: successResetArmed_def)
    show "successResetTimeout ?s' = None
            \<and> (\<forall>t c. drawerStep t c SuccessResetFires ?s' = ?s')"
      using n successResetFires_none [OF n] by simp
  qed
  have f: ?F
    using successResetFires_early successResetFires_due by simp
  show ?thesis by (rule conjI [OF i conjI [OF a conjI [OF k conjI [OF c f]]]])
qed

theorem successReset_spec_witness:
  "successResetArmed initialDrawer
   \<and> successResetTimeout
        (drawerStep 5000 (Some Ready) (SetRegistrationSuccess True) initialDrawer) = Some 5500
   \<and> successResetArmed
        (drawerStep 5000 (Some Ready) (SetRegistrationSuccess True) initialDrawer)
   \<and> drawerStep 5499 (Some Ready) SuccessResetFires
        (drawerStep 5000 (Some Ready) (SetRegistrationSuccess True) initialDrawer)
       = drawerStep 5000 (Some Ready) (SetRegistrationSuccess True) initialDrawer
   \<and> \<not> registrationSuccess (drawerStep 5500 (Some Ready) SuccessResetFires
        (drawerStep 5000 (Some Ready) (SetRegistrationSuccess True) initialDrawer))
   \<and> successResetTimeout (drawerStep 5100 (Some Ready) (OpenDrawer False)
        (drawerStep 5000 (Some Ready) (SetRegistrationSuccess True) initialDrawer)) = None"
proof -
  let ?s1 = "drawerStep 5000 (Some Ready) (SetRegistrationSuccess True) initialDrawer"
  have h: "successResetArmed initialDrawer"
    by (simp add: successResetArmed_def initialDrawer_def)
  have before: "\<not> (\<not> isOpen initialDrawer \<and> registrationSuccess initialDrawer)"
    by (simp add: initialDrawer_def)
  have after: "\<not> isOpen ?s1" "registrationSuccess ?s1"
    by (simp_all add: drawerStep_def setRegistrationSuccess_def initialDrawer_def)
  from successReset_spec [OF h, of 5000 "Some Ready" "SetRegistrationSuccess True"]
    before after
  have armed1: "successResetArmed ?s1" and tm: "successResetTimeout ?s1 = Some 5500"
    by simp_all
  have opened: "isOpen (drawerStep 5100 (Some Ready) (OpenDrawer False) ?s1)"
    by (simp add: drawerStep_def openDrawer_def setRegistrationSuccess_def isAIWriting_def
        initialDrawer_def)
  from successReset_spec [OF armed1, of 5100 "Some Ready" "OpenDrawer False"] tm opened
  have "drawerStep 5499 (Some Ready) SuccessResetFires ?s1 = ?s1"
    and "\<not> registrationSuccess (drawerStep 5500 (Some Ready) SuccessResetFires ?s1)"
    and "successResetTimeout (drawerStep 5100 (Some Ready) (OpenDrawer False) ?s1) = None"
    by simp_all
  with h armed1 tm show ?thesis by simp
qed

lemma lateSave_steps:
  "\<not> isOpen (drawer (run closedWhileSaving (mount 0 Ready (Some Ready) [] [])))"
  "\<not> registrationSuccess (drawer (run closedWhileSaving (mount 0 Ready (Some Ready) [] [])))"
  "\<not> isOpen (drawer (run lateSave (mount 0 Ready (Some Ready) [] [])))"
  "registrationSuccess (drawer (run lateSave (mount 0 Ready (Some Ready) [] [])))"
  "successResetTimeout (drawer (run lateSave (mount 0 Ready (Some Ready) [] []))) = Some 15500"
  "\<not> isOpen
     (drawer (run (lateSave @ [(15400, SuccessResetTimer)]) (mount 0 Ready (Some Ready) [] [])))"
  "registrationSuccess
     (drawer (run (lateSave @ [(15400, SuccessResetTimer)]) (mount 0 Ready (Some Ready) [] [])))"
  "\<not> registrationSuccess
     (drawer (run (lateSave @ [(15500, SuccessResetTimer)]) (mount 0 Ready (Some Ready) [] [])))"
  using valid_example
  by (simp_all add: lateSave_def closedWhileSaving_def world_defs drawerIsVisible_def
      questionIsVisible_def handleYesClick_def setIsWaitingForEmail_def
      setRegistrationSuccess_def isLoading_def emailSubmitBegins_def saveEmailSettles_def
      render_successResetTimeout successResetFires_def del: regexTest.simps)

text \<open>
  The claim as written fails. On the page, an email is submitted at 11500 and the drawer
  is closed by the Escape key at 12000 while the save is pending; the save succeeds at
  15000 and sets the success flag, so the timer is armed for 15500. At 15400 the drawer
  has been closed for 3400 ms and the flag is still set; the timer clears it at 15500.
\<close>

theorem successReset_counterexample:
  "\<not> isOpen (drawer (run closedWhileSaving (mount 0 Ready (Some Ready) [] [])))
   \<and> \<not> isOpen (drawer (run lateSave (mount 0 Ready (Some Ready) [] [])))
   \<and> registrationSuccess (drawer (run lateSave (mount 0 Ready (Some Ready) [] [])))
   \<and> successResetTimeout (drawer (run lateSave (mount 0 Ready (Some Ready) [] [])))
       = Some 15500
   \<and> \<not> isOpen
        (drawer (run (lateSave @ [(15400, SuccessResetTimer)])
                   (mount 0 Ready (Some Ready) [] [])))
   \<and> registrationSuccess
        (drawer (run (lateSave @ [(15400, SuccessResetTimer)])
                   (mount 0 Ready (Some Ready) [] [])))
   \<and> \<not> registrationSuccess
        (drawer (run (lateSave @ [(15500, SuccessResetTimer)])
                   (mount 0 Ready (Some Ready) [] [])))"
  using lateSave_steps by simp

lemma startCooldown_cooling:
  "T0 \<le> now \<Longrightarrow> list_all (\<lambda>d. T0 + 10000 \<le> d) (cooldownTimeouts r)
     \<Longrightarrow> coolingRefs T0 (startCooldown now r)"
  by (simp add: coolingRefs_def startCooldown_def)

lemma cooldownFires_cooling:
  assumes "coolingRefs T0 r" and "now < T0 + 10000"
  shows "cooldownFires now r = r"
proof -
  from assms have "\<forall>d \<in> set (cooldownTimeouts r). \<not> d \<le> now"
    by (auto simp add: coolingRefs_def list_all_iff)
  then have "filter (\<lambda>d. d \<le> now) (cooldownTimeouts r) = []"
    by (simp add: filter_empty_conv)
  then show ?thesis by (simp add: cooldownFires_def)
qed

lemma commit_cooling:
  assumes "coolingRefs T0 (refs w)" and "T0 \<le> now"
  shows "coolingRefs T0 (refs (commit now prev w))"
  using assms startCooldown_cooling [of T0 now "refs w"]
  by (simp add: commit_refs coolingRefs_def)

lemma commit_automatic [simp]:
  "isAutomaticOpen (drawer (commit now prev w)) = isAutomaticOpen (drawer w)"
  by simp

lemma handler_cooling:
  assumes "coolingSince T0 w" and "T0 \<le> now" and "now < T0 + 10000"
  shows "coolingSince T0 (worldHandler now ev w)"
proof (cases ev)
  case PlusButton
  with assms show ?thesis
    using startCooldown_cooling [of T0 now "refs w"]
    by (simp add: coolingSince_def safeToggleDrawer_def toggleDrawer_def openDrawer_def
        closeDrawer_def coolingRefs_def)
next
  case EmergencyClose
  with assms show ?thesis by (simp add: coolingSince_def closeDrawer_def)
next
  case EscapeKey
  with assms show ?thesis by (simp add: coolingSince_def closeDrawer_def)
next
  case YesClick
  with assms show ?thesis
    by (simp add: coolingSince_def handleYesClick_def setIsWaitingForEmail_def)
next
  case NoClick
  with assms show ?thesis by (simp add: coolingSince_def handleNoClick_def closeDrawer_def)
next
  case SubmitInput
  with assms show ?thesis
    by (simp add: coolingSince_def emailSubmitBegins_def handleSubmit_def)
next
  case (SaveEmailSettles ok)
  with assms show ?thesis
    using startCooldown_cooling [of T0 now "refs w"]
    by (cases "pendingSaves w")
       (simp_all add: coolingSince_def saveEmailSettles_def handleSubmit_def closeDrawer_def
          setIsWaitingForEmail_def setRegistrationSuccess_def coolingRefs_def)
next
  case (ChatChanges st cs ms str)
  with assms show ?thesis by (simp add: coolingSince_def)
next
  case IntentEffectRuns
  with assms show ?thesis
    by (simp add: coolingSince_def coolingRefs_def intentEffect_def
        checkForRegistrationIntent_def)
next
  case AutoCloseTimer
  with assms show ?thesis
    by (cases "autoCloseTimeout (drawer w)") (simp_all add: coolingSince_def autoCloseFires_def)
next
  case SuccessResetTimer
  with assms show ?thesis
    by (cases "successResetTimeout (drawer w)")
       (simp_all add: coolingSince_def successResetFires_def)
next
  case ForceCloseTimer
  with assms show ?thesis by (simp add: coolingSince_def forceCloseFires_def)
next
  case NoClickTimer
  with assms show ?thesis
    by (cases "filter (\<lambda>d. d \<le> now) (noClickTimeouts w)")
       (simp_all add: coolingSince_def noClickFires_def closeDrawer_def)
next
  case CooldownTimer
  with assms show ?thesis
    using cooldownFires_cooling [of T0 "refs w" now] by (simp add: coolingSince_def)
qed

lemma step_cooling:
  assumes "coolingSince T0 w" and "T0 \<le> now" and "now < T0 + 10000"
  shows "coolingSince T0 (worldStep now ev w)"
proof -
  from handler_cooling [OF assms] have h: "coolingSince T0 (worldHandler now ev w)" .
  then show ?thesis
    using commit_cooling [of T0 "worldHandler now ev w" now w] assms(2)
    by (simp add: coolingSince_def worldStep_def)
qed

lemma run_cooling:
  assumes "list_all (\<lambda>(t, ev). T0 \<le> t \<and> t < T0 + 10000) tr" and "coolingSince T0 w"
  shows "coolingSince T0 (run tr w)"
  using assms
proof (induction tr arbitrary: w)
  case Nil
  then show ?case by simp
next
  case (Cons e tr)
  obtain t ev where e: "e = (t, ev)" by (cases e) auto
  from Cons.prems(1) e have now: "T0 \<le> t" "t < T0 + 10000"
    and rest: "list_all (\<lambda>(t, ev). T0 \<le> t \<and> t < T0 + 10000) tr" by simp_all
  from step_cooling [OF Cons.prems(2) now] have "coolingSince T0 (worldStep t ev w)" .
  from Cons.IH [OF rest this] show ?case by (simp add: e)
qed

lemma mount_cooling: "coolingSince T0 (mount T0 st cs ms str)"
  by (simp add: coolingSince_def coolingRefs_def mount_def intentEffect_def
      checkForRegistrationIntent_def startCooldown_def initialDrawer_def)

lemma mount_state:
  "cooldownRef (refs (mount T0 st cs ms str))"
  "cooldownTimeouts (refs (mount T0 st cs ms str)) = [T0 + 10000]"
  "\<not> isOpen (drawer (mount T0 st cs ms str))"
  by (simp_all add: mount_def intentEffect_def checkForRegistrationIntent_def
      startCooldown_def initialDrawer_def)

lemma closing_arms:
  assumes "isOpen (drawer w)" and "\<not> isOpen (drawer (worldStep now ev w))"
  shows "cooldownRef (refs (worldStep now ev w))
       \<and> now + 10000 \<in> set (cooldownTimeouts (refs (worldStep now ev w)))"
  using assms by (simp add: worldStep_def commit_refs startCooldown_def)


lemma cooldownFires_due:
  assumes "d \<in> set (cooldownTimeouts r)" and "d \<le> t"
  shows "\<not> cooldownRef (cooldownFires t r)"
proof -
  from assms have "filter (\<lambda>d. d \<le> t) (cooldownTimeouts r) \<noteq> []"
    by (auto simp add: filter_empty_conv)
  then show ?thesis by (simp add: cooldownFires_def)
qed

text \<open>
  C10. The first render sets the cooldown flag with a 10 s timer; so does every event
  after which an open drawer is closed, a click on the plus button with the drawer
  closed and the assistant idle, and an email submission that succeeds; a timer that is
  due clears the flag. While the flag is set the intent effect does nothing. Hence after
  any events in the first 10 s after the mount the flag is still set and the drawer is
  not open automatically.
\<close>

theorem cooldown_spec:
  "cooldownRef (refs (mount T0 st cs ms str))
   \<and> cooldownTimeouts (refs (mount T0 st cs ms str)) = [T0 + 10000]
   \<and> (isOpen (drawer w) \<and> \<not> isOpen (drawer (worldStep now ev w)) \<longrightarrow>
        cooldownRef (refs (worldStep now ev w))
        \<and> now + 10000 \<in> set (cooldownTimeouts (refs (worldStep now ev w))))
   \<and> (\<not> isAIWriting (chatStatus w) \<and> \<not> isOpen (drawer w) \<longrightarrow>
        cooldownRef (refs (worldStep now PlusButton w))
        \<and> now + 10000 \<in> set (cooldownTimeouts (refs (worldStep now PlusButton w))))
   \<and> (pendingSaves w \<noteq> [] \<longrightarrow>
        cooldownRef (refs (worldStep now (SaveEmailSettles True) w))
        \<and> now + 10000 \<in> set (cooldownTimeouts (refs (worldStep now (SaveEmailSettles True) w))))
   \<and> (\<forall>d r t. d \<in> set (cooldownTimeouts r) \<and> d \<le> t \<longrightarrow> \<not> cooldownRef (cooldownFires t r))
   \<and> (cooldownRef (refs w) \<longrightarrow>
        intentEffect now w = w \<and> worldStep now IntentEffectRuns w = w)
   \<and> (list_all (\<lambda>(t, ev). T0 \<le> t \<and> t < T0 + 10000) tr \<longrightarrow>
        cooldownRef (refs (run tr (mount T0 st cs ms str)))
        \<and> \<not> isAutomaticOpen (drawer (run tr (mount T0 st cs ms str)))
        \<and> origin (drawer (run tr (mount T0 st cs ms str))) \<noteq> Automatic)"
    (is "?M1 \<and> ?M2 \<and> ?C \<and> ?P \<and> ?S \<and> ?F \<and> ?I \<and> ?R")
proof -
  have m: ?M1 ?M2 by (rule mount_state)+
  have c: ?C using closing_arms [of w now ev] by blast
  have p: ?P
    by (simp add: worldStep_def safeToggleDrawer_def commit_refs startCooldown_def)
  have s: ?S
    by (cases "pendingSaves w")
       (simp_all add: worldStep_def saveEmailSettles_def commit_refs startCooldown_def)
  have f: ?F using cooldownFires_due by blast
  have i: ?I
  proof
    assume "cooldownRef (refs w)"
    then have "intentEffect now w = w"
      by (simp add: intentEffect_def checkForRegistrationIntent_def)
    then show "intentEffect now w = w \<and> worldStep now IntentEffectRuns w = w"
      by (simp add: worldStep_def)
  qed
  have r: ?R
  proof
    assume "list_all (\<lambda>(t, ev). T0 \<le> t \<and> t < T0 + 10000) tr"
    from run_cooling [OF this mount_cooling]
    have "coolingSince T0 (run tr (mount T0 st cs ms str))" .
    then show "cooldownRef (refs (run tr (mount T0 st cs ms str)))
        \<and> \<not> isAutomaticOpen (drawer (run tr (mount T0 st cs ms str)))
        \<and> origin (drawer (run tr (mount T0 st cs ms str))) \<noteq> Automatic"
      by (simp add: coolingSince_def coolingRefs_def origin_def)
  qed
  show ?thesis
    by (rule conjI [OF m(1) conjI [OF m(2) conjI [OF c conjI [OF p conjI [OF s
          conjI [OF f conjI [OF i r]]]]]]])
qed

theorem cooldown_spec_witness:
  "isOpen (drawer (capturing ''a@b.co''))
   \<and> \<not> isOpen (drawer (worldStep 8000 EscapeKey (capturing ''a@b.co'')))
   \<and> cooldownRef (refs (worldStep 8000 EscapeKey (capturing ''a@b.co'')))
   \<and> 18000 \<in> set (cooldownTimeouts (refs (worldStep 8000 EscapeKey (capturing ''a@b.co''))))
   \<and> \<not> isAIWriting (chatStatus (mount 0 Ready (Some Ready) [] []))
   \<and> \<not> isOpen (drawer (mount 0 Ready (Some Ready) [] []))
   \<and> cooldownRef (refs (worldStep 5000 PlusButton (mount 0 Ready (Some Ready) [] [])))
   \<and> pendingSaves (worldStep 7500 SubmitInput (capturing ''a@b.co'')) \<noteq> []
   \<and> cooldownRef (refs (worldStep 8000 (SaveEmailSettles True)
        (worldStep 7500 SubmitInput (capturing ''a@b.co''))))
   \<and> cooldownRef (refs (mount 0 Ready (Some Ready) [] []))
   \<and> worldStep 100 IntentEffectRuns (mount 0 Ready (Some Ready) [] [])
       = mount 0 Ready (Some Ready) [] []
   \<and> list_all (\<lambda>(t, ev). 0 \<le> t \<and> t < 0 + 10000) eagerUser
   \<and> cooldownRef (refs (run eagerUser (mount 0 Ready (Some Ready) [] [])))
   \<and> \<not> isAutomaticOpen (drawer (run eagerUser (mount 0 Ready (Some Ready) [] [])))"
proof -
  let ?m = "mount 0 Ready (Some Ready) [] []"
  let ?c = "capturing ''a@b.co''"
  have h1: "isOpen (drawer ?c)" by (rule capturing_state)
  have h0: "isWaitingForEmail (drawer ?c)" by (rule capturing_state)
  have h2: "\<not> isOpen (drawer (worldStep 8000 EscapeKey ?c))"
    by (simp add: worldStep_def closeDrawer_def)
  have h3: "\<not> isAIWriting (chatStatus ?m)" "\<not> isOpen (drawer ?m)"
    by (simp_all add: mount_state) (simp add: world_defs)
  have v: "regexTest emailRegex (input ?c)"
    by (simp only: capturing_state valid_example)
  have h4: "pendingSaves (worldStep 7500 SubmitInput ?c) \<noteq> []"
    using v h0 by (simp add: worldStep_def emailSubmitBegins_def isLoading_def
        capturing_state(7))
  have h5: "cooldownRef (refs ?m)" by (rule mount_state)
  have h6: "list_all (\<lambda>(t, ev). 0 \<le> t \<and> t < 0 + 10000) eagerUser"
    by (simp add: eagerUser_def)
  from cooldown_spec [of 0 Ready "Some Ready" "[]" "[]" ?c 8000 EscapeKey eagerUser]
    cooldown_spec [of 0 Ready "Some Ready" "[]" "[]" ?m 5000 EscapeKey eagerUser]
    cooldown_spec [of 0 Ready "Some Ready" "[]" "[]" "worldStep 7500 SubmitInput ?c" 8000
      EscapeKey eagerUser]
    cooldown_spec [of 0 Ready "Some Ready" "[]" "[]" ?m 100 EscapeKey eagerUser]
    h1 h2 h3 h4 h5 h6
  show ?thesis by simp
qed

lemma handler_exclusive:
  assumes "\<not> (isWaitingForEmail (drawer w) \<and> registrationSuccess (drawer w))"
  shows "\<not> (isWaitingForEmail (drawer (worldHandler now ev w))
          \<and> registrationSuccess (drawer (worldHandler now ev w)))"
proof (cases ev)
  case PlusButton
  with assms show ?thesis
    by (simp add: safeToggleDrawer_def toggleDrawer_def openDrawer_def closeDrawer_def)
next
  case EmergencyClose
  with assms show ?thesis by (simp add: closeDrawer_def)
next
  case EscapeKey
  with assms show ?thesis by (simp add: closeDrawer_def)
next
  case YesClick
  with assms show ?thesis
    by (simp add: questionIsVisible_def handleYesClick_def setIsWaitingForEmail_def)
next
  case NoClick
  with assms show ?thesis by (simp add: handleNoClick_def closeDrawer_def)
next
  case SubmitInput
  with assms show ?thesis by (simp add: emailSubmitBegins_def handleSubmit_def)
next
  case (SaveEmailSettles ok)
  with assms show ?thesis
    by (cases "pendingSaves w")
       (simp_all add: saveEmailSettles_def handleSubmit_def closeDrawer_def
          setIsWaitingForEmail_def setRegistrationSuccess_def)
next
  case (ChatChanges st cs ms str)
  with assms show ?thesis by simp
next
  case IntentEffectRuns
  with assms show ?thesis
    by (simp add: intentEffect_unfold openDrawer_def)
next
  case AutoCloseTimer
  with assms show ?thesis
    by (cases "autoCloseTimeout (drawer w)") (simp_all add: autoCloseFires_def)
next
  case SuccessResetTimer
  with assms show ?thesis
    by (cases "successResetTimeout (drawer w)") (simp_all add: successResetFires_def)
next
  case ForceCloseTimer
  with assms show ?thesis by (simp add: forceCloseFires_def)
next
  case NoClickTimer
  with assms show ?thesis
    by (cases "filter (\<lambda>d. d \<le> now) (noClickTimeouts w)")
       (simp_all add: noClickFires_def closeDrawer_def)
next
  case CooldownTimer
  with assms show ?thesis by simp
qed

lemma run_exclusive:
  assumes "\<not> (isWaitingForEmail (drawer w) \<and> registrationSuccess (drawer w))"
  shows "\<not> (isWaitingForEmail (drawer (run tr w)) \<and> registrationSuccess (drawer (run tr w)))"
  using assms
proof (induction tr arbitrary: w)
  case Nil
  then show ?case by simp
next
  case (Cons e tr)
  obtain t ev where e: "e = (t, ev)" by (cases e) auto
  from handler_exclusive [OF Cons.prems, of t ev]
  have "\<not> (isWaitingForEmail (drawer (worldStep t ev w))
          \<and> registrationSuccess (drawer (worldStep t ev w)))"
    by (simp add: worldStep_def)
  from Cons.IH [OF this] show ?case by (simp add: e)
qed

text \<open>
  On the page the two sub-modes exclude each other after any events from the mount: the
  Yes button is rendered only while neither is set, and a saved email sets the success
  flag and clears \<^verbatim>\<open>isWaitingForEmail\<close> in one batch.
\<close>

theorem page_modes_never_both:
  "\<not> (isWaitingForEmail (drawer (run tr (mount T0 st cs ms str)))
      \<and> registrationSuccess (drawer (run tr (mount T0 st cs ms str))))"
proof (rule run_exclusive)
  show "\<not> (isWaitingForEmail (drawer (mount T0 st cs ms str))
      \<and> registrationSuccess (drawer (mount T0 st cs ms str)))"
    by (simp add: mount_def intentEffect_def checkForRegistrationIntent_def startCooldown_def
        initialDrawer_def)
qed
end
